theory Spec2Isabelle
  imports Main "HOL-Library.Sublist"
begin

section \<open>Strings\<close>

text \<open>
  A string of the program is modelled as a \<^typ>\<open>string\<close>: the list of its code units,
  \<open>length\<close> being the program's \<open>.length\<close>. The character classes below are the ones
  of the program's regular expressions and of \<open>String.prototype.trim\<close>, on the code
  units below 256.
\<close>

definition LF :: char where
  "LF = CHR 0x0A"

definition CR :: char where
  "CR = CHR 0x0D"

definition is_line_terminator :: "char \<Rightarrow> bool" where
  "is_line_terminator c = (c = CHR 0x0A \<or> c = CHR 0x0D)"

definition is_space :: "char \<Rightarrow> bool" where
  "is_space c = (c = CHR 0x09 \<or> c = CHR 0x0A \<or> c = CHR 0x0B \<or> c = CHR 0x0C
     \<or> c = CHR 0x0D \<or> c = CHR 0x20 \<or> c = CHR 0xA0)"

definition is_digit :: "char \<Rightarrow> bool" where
  "is_digit c = (c \<in> set ''0123456789'')"

definition is_word_char :: "char \<Rightarrow> bool" where
  "is_word_char c = (c \<in> set ''ABCDEFGHIJKLMNOPQRSTUVWXYZabcdefghijklmnopqrstuvwxyz0123456789_'')"

definition trim :: "string \<Rightarrow> string" where
  "trim s = rev (dropWhile is_space (rev (dropWhile is_space s)))"

definition digit_char :: "nat \<Rightarrow> char" where
  "digit_char d = ''0123456789'' ! d"

fun show_nat :: "nat \<Rightarrow> string" where
  "show_nat n = (if n < 10 then [digit_char n] else show_nat (n div 10) @ [digit_char (n mod 10)])"

declare show_nat.simps [simp del]



text \<open>The letters that \<open>toLowerCase\<close> changes, among the code units below 256, and what
  they become.\<close>

definition upper_case_letters :: string where
  "upper_case_letters = ''ABCDEFGHIJKLMNOPQRSTUVWXYZ'' @
       [CHR 0xC0, CHR 0xC1, CHR 0xC2, CHR 0xC3, CHR 0xC4, CHR 0xC5, CHR 0xC6, CHR 0xC7,
        CHR 0xC8, CHR 0xC9, CHR 0xCA, CHR 0xCB, CHR 0xCC, CHR 0xCD, CHR 0xCE, CHR 0xCF,
        CHR 0xD0, CHR 0xD1, CHR 0xD2, CHR 0xD3, CHR 0xD4, CHR 0xD5, CHR 0xD6, CHR 0xD8,
        CHR 0xD9, CHR 0xDA, CHR 0xDB, CHR 0xDC, CHR 0xDD, CHR 0xDE]"

definition lower_case_letters :: string where
  "lower_case_letters = ''abcdefghijklmnopqrstuvwxyz'' @
       [CHR 0xE0, CHR 0xE1, CHR 0xE2, CHR 0xE3, CHR 0xE4, CHR 0xE5, CHR 0xE6, CHR 0xE7,
        CHR 0xE8, CHR 0xE9, CHR 0xEA, CHR 0xEB, CHR 0xEC, CHR 0xED, CHR 0xEE, CHR 0xEF,
        CHR 0xF0, CHR 0xF1, CHR 0xF2, CHR 0xF3, CHR 0xF4, CHR 0xF5, CHR 0xF6, CHR 0xF8,
        CHR 0xF9, CHR 0xFA, CHR 0xFB, CHR 0xFC, CHR 0xFD, CHR 0xFE]"

definition to_lower_char :: "char \<Rightarrow> char" where
  "to_lower_char c =
     (case map_of (zip upper_case_letters lower_case_letters) c of
        None \<Rightarrow> c
      | Some l \<Rightarrow> l)"

definition toLowerCase :: "string \<Rightarrow> string" where
  "toLowerCase s = map to_lower_char s"

text \<open>\<open>xs.join(sep)\<close>\<close>

fun join_with :: "string \<Rightarrow> string list \<Rightarrow> string" where
  "join_with sep [] = []"
| "join_with sep [x] = x"
| "join_with sep (x # y # ys) = x @ sep @ join_with sep (y # ys)"

text \<open>\<open>s.split(c)\<close> for a one-character separator: never empty, one more part than separators.\<close>

fun split_on :: "char \<Rightarrow> string \<Rightarrow> string list" where
  "split_on c [] = [[]]"
| "split_on c (x # xs) =
     (if x = c then [] # split_on c xs
      else (case split_on c xs of
              [] \<Rightarrow> [[x]]
            | p # ps \<Rightarrow> (x # p) # ps))"

text \<open>\<open>s.split(/\r?\n/)\<close>: a line ends at a line feed, together with the carriage return
  right before it.\<close>

fun split_lines :: "string \<Rightarrow> string list" where
  "split_lines [] = [[]]"
| "split_lines (x # xs) =
     (if x = LF then [] # split_lines xs
      else if x = CR \<and> xs \<noteq> [] \<and> hd xs = LF then [] # split_lines (tl xs)
      else (case split_lines xs of
              [] \<Rightarrow> [[x]]
            | l # ls \<Rightarrow> (x # l) # ls))"

text \<open>\<open>s.includes(p)\<close>\<close>

fun str_includes :: "string \<Rightarrow> string \<Rightarrow> bool" where
  "str_includes [] p = (p = [])"
| "str_includes (x # xs) p = (prefix p (x # xs) \<or> str_includes xs p)"

section \<open>Tool output truncation\<close>

definition MAX_TOOL_OUTPUT :: nat where
  "MAX_TOOL_OUTPUT = 2000"

definition truncation_notice :: "nat \<Rightarrow> string" where
  "truncation_notice n = LF # ''... (truncated '' @ show_nat n @ '' characters)''"

definition truncateOutput :: "string \<Rightarrow> string" where
  "truncateOutput v =
     (if length v \<le> MAX_TOOL_OUTPUT then v
      else take MAX_TOOL_OUTPUT v @ truncation_notice (length v - MAX_TOOL_OUTPUT))"

section \<open>Workspace and file system\<close>

text \<open>
  What the tools read, and the library functions they call, are parameters of the model.
  The file system is a table from absolute paths to nodes; \<open>fs.stat\<close> fails on every
  other path. A directory carries the outcome of \<open>fs.readdir\<close> (the error message, or
  the entries with their \<open>isDirectory()\<close>), a regular file its \<open>stat.size\<close> and the
  outcome of \<open>fs.readFile\<close>; any other node is neither \<open>isDirectory()\<close> nor
  \<open>isFile()\<close>. \<open>resolveWorkspacePath\<close> is the provider's resolver: it throws (\<open>Inl\<close>
  the message), or returns a path or nothing.
\<close>

datatype fs_node =
    Directory "string + (string \<times> bool) list"
  | RegularFile nat "string + string"
  | OtherNode "string + string"

record env =
  resolveWorkspacePath :: "string \<Rightarrow> string + string option"
  fs_nodes :: "(string \<times> fs_node) list"
  io_error :: "string \<Rightarrow> string \<Rightarrow> string"
  compile_regex :: "string \<Rightarrow> (string \<Rightarrow> bool) option"
  locale_sort :: "(string \<times> bool) list \<Rightarrow> (string \<times> bool) list"
  path_join :: "string \<Rightarrow> string \<Rightarrow> string"
  path_relative :: "string \<Rightarrow> string \<Rightarrow> string"
  path_basename :: "string \<Rightarrow> string"

definition fs_stat :: "('a env_scheme) \<Rightarrow> string \<Rightarrow> string + fs_node" where
  "fs_stat e p =
     (case map_of (fs_nodes e) p of
        None \<Rightarrow> Inl (io_error e ''stat'' p)
      | Some n \<Rightarrow> Inr n)"

definition fs_readdir :: "('a env_scheme) \<Rightarrow> string \<Rightarrow> string + (string \<times> bool) list" where
  "fs_readdir e p =
     (case map_of (fs_nodes e) p of
        Some (Directory r) \<Rightarrow> r
      | _ \<Rightarrow> Inl (io_error e ''readdir'' p))"

definition fs_readFile :: "('a env_scheme) \<Rightarrow> string \<Rightarrow> string + string" where
  "fs_readFile e p =
     (case map_of (fs_nodes e) p of
        Some (RegularFile n r) \<Rightarrow> r
      | Some (OtherNode r) \<Rightarrow> r
      | _ \<Rightarrow> Inl (io_error e ''readFile'' p))"

text \<open>\<open>x || d\<close> and \<open>!x\<close> on an optional string: the empty string counts as absent.\<close>

definition truthy :: "string option \<Rightarrow> string option" where
  "truthy x = (case x of None \<Rightarrow> None | Some s \<Rightarrow> if s = [] then None else Some s)"

definition or_else :: "string option \<Rightarrow> string \<Rightarrow> string" where
  "or_else x d = (case truthy x of None \<Rightarrow> d | Some s \<Rightarrow> s)"

section \<open>The tools\<close>

definition listFiles :: "('a env_scheme) \<Rightarrow> string \<Rightarrow> string + string" where
  "listFiles e argument =
     (case resolveWorkspacePath e (or_else (Some argument) ''.'') of
        Inl thrown \<Rightarrow> Inl thrown
      | Inr r \<Rightarrow>
          (case truthy r of
             None \<Rightarrow> Inr ''Workspace folder is not available for ListFiles.''
           | Some resolved \<Rightarrow>
               (case fs_readdir e resolved of
                  Inl msg \<Rightarrow> Inr (''ListFiles error: '' @ msg)
                | Inr entries \<Rightarrow>
                    if entries = [] then Inr ''(empty directory)''
                    else
                      (case resolveWorkspacePath e ''.'' of
                         Inl msg \<Rightarrow> Inr (''ListFiles error: '' @ msg)
                       | Inr w \<Rightarrow>
                           (let workspaceRoot = or_else w resolved;
                                relativeBase = or_else (Some (path_relative e workspaceRoot resolved)) ''.''
                            in Inr (join_with [LF]
                                 (map (\<lambda>(name, isDir). relativeBase @ ''/'' @ name @ (if isDir then ''/'' else []))
                                    (locale_sort e entries))))))))"

definition readFile :: "('a env_scheme) \<Rightarrow> string \<Rightarrow> string + string" where
  "readFile e argument =
     (case resolveWorkspacePath e argument of
        Inl thrown \<Rightarrow> Inl thrown
      | Inr r \<Rightarrow>
          (case truthy r of
             None \<Rightarrow> Inr ''Unable to resolve path for ReadFile.''
           | Some resolved \<Rightarrow>
               (case fs_stat e resolved of
                  Inl msg \<Rightarrow> Inr (''ReadFile error: '' @ msg)
                | Inr (Directory d) \<Rightarrow> Inr ''ReadFile error: target is a directory.''
                | Inr node \<Rightarrow>
                    (case fs_readFile e resolved of
                       Inl msg \<Rightarrow> Inr (''ReadFile error: '' @ msg)
                     | Inr data \<Rightarrow> Inr (truncateOutput data)))))"

subsection \<open>SearchText\<close>

text \<open>\<open>argument.split("|").map((part) => part.trim())\<close>, destructured into its first
  two elements.\<close>

definition search_args :: "string \<Rightarrow> string \<times> string option" where
  "search_args argument =
     (case map trim (split_on (CHR ''|'') argument) of
        [] \<Rightarrow> ([], None)
      | [pattern] \<Rightarrow> (pattern, None)
      | pattern # rawPath # _ \<Rightarrow> (pattern, Some rawPath))"

definition skipDirectories :: "string set" where
  "skipDirectories = {''.git'', ''node_modules'', ''.turbo'', ''.next'', ''dist'', ''build''}"

definition maxFiles :: nat where
  "maxFiles = 120"

definition maxResults :: nat where
  "maxResults = 40"

definition maxFileSize :: nat where
  "maxFileSize = 200000"

text \<open>The state of the traversal loop. \<open>file_reads\<close> is not a variable of the program: it
  logs the paths given to \<open>fs.readFile\<close>, in order.\<close>

record search_state =
  queue :: "string list"
  visited :: "string list"
  results :: "string list"
  scannedFiles :: nat
  file_reads :: "string list"

text \<open>The test of one line: the compiled expression, or the substring test when the
  pattern does not compile.\<close>

definition line_matches :: "('a env_scheme) \<Rightarrow> string \<Rightarrow> string \<Rightarrow> bool" where
  "line_matches e pattern line =
     (case compile_regex e pattern of
        Some test \<Rightarrow> test line
      | None \<Rightarrow> str_includes (toLowerCase line) (toLowerCase pattern))"

text \<open>The inner loop over the lines of one file, \<open>index\<close> counting from 0.\<close>

fun scan_lines :: "(string \<Rightarrow> bool) \<Rightarrow> string \<Rightarrow> nat \<Rightarrow> string list \<Rightarrow> string list \<Rightarrow> string list" where
  "scan_lines test relative index [] res = res"
| "scan_lines test relative index (line # lines) res =
     (if length res < maxResults
      then scan_lines test relative (index + 1) lines
             (if test line
              then res @ [relative @ '':'' @ show_nat (index + 1) @ '': '' @ trim line]
              else res)
      else res)"

text \<open>One iteration of the \<open>while\<close> loop, entered with a non-empty queue.\<close>

definition search_step :: "('a env_scheme) \<Rightarrow> string \<Rightarrow> (string \<Rightarrow> bool) \<Rightarrow> search_state \<Rightarrow> search_state" where
  "search_step e workspaceRoot test st =
     (let current = hd (queue st);
          st1 = st\<lparr>queue := tl (queue st)\<rparr>
      in if current \<in> set (visited st1) then st1
         else
           (let st2 = st1\<lparr>visited := current # visited st1\<rparr>
            in case fs_stat e current of
                 Inl err \<Rightarrow> st2
               | Inr (Directory listing) \<Rightarrow>
                   (case listing of
                      Inl err \<Rightarrow> st2
                    | Inr entries \<Rightarrow>
                        st2\<lparr>queue := queue st2 @
                          map (path_join e current)
                            (filter (\<lambda>entry. entry \<notin> skipDirectories) (map fst entries))\<rparr>)
               | Inr (RegularFile size_bytes reading) \<Rightarrow>
                   if size_bytes > maxFileSize then st2
                   else
                     (let st3 = st2\<lparr>scannedFiles := scannedFiles st2 + 1,
                                       file_reads := file_reads st2 @ [current]\<rparr>
                      in case reading of
                           Inl err \<Rightarrow> st3
                         | Inr content \<Rightarrow>
                             st3\<lparr>results :=
                               scan_lines test
                                 (or_else (Some (path_relative e workspaceRoot current)) (path_basename e current))
                                 0 (split_lines content) (results st3)\<rparr>)
               | Inr (OtherNode reading) \<Rightarrow> st2))"

definition search_continues :: "search_state \<Rightarrow> bool" where
  "search_continues st =
     (queue st \<noteq> [] \<and> scannedFiles st < maxFiles \<and> length (results st) < maxResults)"

definition unvisited :: "('a env_scheme) \<Rightarrow> search_state \<Rightarrow> nat" where
  "unvisited e st = length (filter (\<lambda>p. p \<notin> set (visited st)) (map fst (fs_nodes e)))"

lemma filter_visited_le:
  "length (filter (\<lambda>p. p \<notin> set (c # v)) ps) \<le> length (filter (\<lambda>p. p \<notin> set v) ps)"
  by (induction ps) auto

lemma filter_visited_less:
  "c \<in> set ps \<Longrightarrow> c \<notin> set v \<Longrightarrow>
   length (filter (\<lambda>p. p \<notin> set (c # v)) ps) < length (filter (\<lambda>p. p \<notin> set v) ps)"
proof (induction ps)
  case Nil
  then show ?case by simp
next
  case (Cons p ps)
  show ?case
  proof (cases "p = c")
    case True
    with Cons.prems filter_visited_le [of c v ps] show ?thesis by (simp add: less_Suc_eq_le)
  next
    case False
    with Cons show ?thesis by auto
  qed
qed

lemma fs_stat_Inr_listed: "fs_stat e p = Inr n \<Longrightarrow> p \<in> set (map fst (fs_nodes e))"
  by (auto simp: fs_stat_def split: option.splits dest: map_of_SomeD intro: rev_image_eqI)

lemma fs_stat_Inl_unlisted: "fs_stat e p = Inl m \<Longrightarrow> p \<notin> set (map fst (fs_nodes e))"
  by (auto simp: fs_stat_def map_of_eq_None_iff split: option.splits)

lemma search_step_decreases:
  assumes "queue st \<noteq> []"
  shows "(unvisited e (search_step e w t st) < unvisited e st)
       \<or> (unvisited e (search_step e w t st) = unvisited e st
           \<and> length (queue (search_step e w t st)) < length (queue st))"
proof (cases "hd (queue st) \<in> set (visited st)")
  case True
  with assms show ?thesis by (simp add: search_step_def unvisited_def Let_def)
next
  case unseen: False
  show ?thesis
  proof (cases "fs_stat e (hd (queue st))")
    case (Inl m)
    then have "hd (queue st) \<notin> set (map fst (fs_nodes e))" by (rule fs_stat_Inl_unlisted)
    then have "filter (\<lambda>p. p \<notin> set (hd (queue st) # visited st)) (map fst (fs_nodes e))
             = filter (\<lambda>p. p \<notin> set (visited st)) (map fst (fs_nodes e))"
      by (intro filter_cong refl) force
    with Inl unseen assms show ?thesis by (simp add: search_step_def unvisited_def Let_def)
  next
    case (Inr n)
    then have "hd (queue st) \<in> set (map fst (fs_nodes e))" by (rule fs_stat_Inr_listed)
    from filter_visited_less [OF this unseen]
    have "unvisited e (st\<lparr>queue := q, visited := hd (queue st) # visited st, results := r,
            scannedFiles := k, file_reads := f\<rparr>) < unvisited e st" for q r k f
      by (simp add: unvisited_def)
    moreover have "visited (search_step e w t st) = hd (queue st) # visited st"
      using unseen by (simp add: search_step_def Let_def split: sum.splits fs_node.splits)
    ultimately show ?thesis
      using filter_visited_less [OF \<open>hd (queue st) \<in> set (map fst (fs_nodes e))\<close> unseen]
      by (simp add: unvisited_def)
  qed
qed

text \<open>The \<open>while\<close> loop. It ends on every table: an iteration either visits a listed
  path for the first time, or shortens the queue.\<close>

function search_loop :: "('a env_scheme) \<Rightarrow> string \<Rightarrow> (string \<Rightarrow> bool) \<Rightarrow> search_state \<Rightarrow> search_state" where
  "search_loop e workspaceRoot test st =
     (if search_continues st
      then search_loop e workspaceRoot test (search_step e workspaceRoot test st)
      else st)"
  by pat_completeness auto
termination
proof (relation "measures [\<lambda>(e, w, t, st). unvisited e st, \<lambda>(e, w, t, st). length (queue st)]")
  show "wf (measures [\<lambda>(e, w, t, st). unvisited e st, \<lambda>(e :: 'a env_scheme, w :: string, t :: string \<Rightarrow> bool, st). length (queue st)])"
    by simp
next
  fix e :: "'a env_scheme" and workspaceRoot test st
  assume "search_continues st"
  then have "queue st \<noteq> []" by (simp add: search_continues_def)
  from search_step_decreases [OF this, of e workspaceRoot test]
  show "((e, workspaceRoot, test, search_step e workspaceRoot test st), e, workspaceRoot, test, st)
        \<in> measures [\<lambda>(e, w, t, st). unvisited e st, \<lambda>(e, w, t, st). length (queue st)]"
    by auto
qed

declare search_loop.simps [simp del]

definition search_start :: "string \<Rightarrow> search_state" where
  "search_start resolvedPath =
     \<lparr>queue = [resolvedPath], visited = [], results = [], scannedFiles = 0, file_reads = []\<rparr>"

text \<open>The traversal from \<open>resolvedPath\<close> and the text made of its results.\<close>

definition search_report :: "('a env_scheme) \<Rightarrow> string \<Rightarrow> string \<Rightarrow> string \<Rightarrow> string" where
  "search_report e workspaceRoot pattern resolvedPath =
     (let st = search_loop e workspaceRoot (line_matches e pattern) (search_start resolvedPath)
      in if results st = [] then ''No results from SearchText.''
         else truncateOutput (join_with [LF] (results st)))"

definition searchText :: "('a env_scheme) \<Rightarrow> string \<Rightarrow> string + string" where
  "searchText e argument =
     (case search_args argument of
        (pattern, rawPath) \<Rightarrow>
          if pattern = [] then Inr ''SearchText requires a pattern argument.''
          else
            (case resolveWorkspacePath e (or_else rawPath ''.'') of
               Inl thrown \<Rightarrow> Inl thrown
             | Inr r \<Rightarrow>
                 (case truthy r of
                    None \<Rightarrow> Inr ''Unable to resolve search path inside the workspace.''
                  | Some resolvedPath \<Rightarrow>
                      (case resolveWorkspacePath e ''.'' of
                         Inl thrown \<Rightarrow> Inl thrown
                       | Inr w \<Rightarrow>
                           Inr (search_report e (or_else w resolvedPath) pattern resolvedPath)))))"

section \<open>The plan grammar\<close>

text \<open>
  The steps of a plan are the matches of
  \<open>/^#E(\d+)\s*=\s*([A-Za-z0-9_]+)\[(.*)\]\s*$/gm\<close>, found by \<open>regex.exec(plan)\<close> from left
  to right. With the flag \<open>m\<close>, \<open>^\<close> holds at the start of the text and after a line
  terminator, and \<open>$\<close> holds at the end of the text and before a line terminator;
  \<open>.\<close> is any character but a line terminator, and \<open>\s\<close> is any white space, line
  terminators included.
\<close>

record plan_step =
  step_id :: string
  step_tool :: string
  step_argument :: string

definition at_line_end :: "string \<Rightarrow> bool" where
  "at_line_end s = (case s of [] \<Rightarrow> True | c # cs \<Rightarrow> is_line_terminator c)"

text \<open>\<open>\s*$\<close>, trying \<open>k\<close> white-space characters, then fewer: the text left after the
  match, and whether the last character matched is a line terminator.\<close>

fun spaces_then_end :: "nat \<Rightarrow> string \<Rightarrow> (bool \<times> string) option" where
  "spaces_then_end 0 s = (if at_line_end s then Some (False, s) else None)"
| "spaces_then_end (Suc k) s =
     (if at_line_end (drop (Suc k) s) then Some (is_line_terminator (s ! k), drop (Suc k) s)
      else spaces_then_end k s)"

definition bracket_here :: "nat \<Rightarrow> string \<Rightarrow> (string \<times> bool \<times> string) option" where
  "bracket_here n s =
     (case drop n s of
        [] \<Rightarrow> None
      | c # r \<Rightarrow>
          if c = CHR '']''
          then map_option (\<lambda>(b, rest). (take n s, b, rest))
                 (spaces_then_end (length (takeWhile is_space r)) r)
          else None)"

text \<open>\<open>(.*)\]\s*$\<close>, trying an argument of \<open>n\<close> characters, then shorter ones.\<close>

fun bracket_tail :: "nat \<Rightarrow> string \<Rightarrow> (string \<times> bool \<times> string) option" where
  "bracket_tail 0 s = bracket_here 0 s"
| "bracket_tail (Suc n) s =
     (case bracket_here (Suc n) s of
        Some r \<Rightarrow> Some r
      | None \<Rightarrow> bracket_tail n s)"

text \<open>\<open>#E(\d+)\s*=\s*([A-Za-z0-9_]+)\[\<close> at the head of \<open>s\<close>: the digits, the tool name
  and the text after the bracket. The greedy \<open>\d+\<close>, \<open>\s*\<close> and \<open>[A-Za-z0-9_]+\<close> take
  their longest run: what follows each of them in the pattern matches no character of
  its class, so a shorter run never matches.\<close>

definition step_prefix :: "string \<Rightarrow> (string \<times> string \<times> string) option" where
  "step_prefix s =
     (case s of
        h # e # s1 \<Rightarrow>
          if h = CHR ''#'' \<and> e = CHR ''E'' \<and> takeWhile is_digit s1 \<noteq> []
          then
            (case dropWhile is_space (dropWhile is_digit s1) of
               [] \<Rightarrow> None
             | eq # s2 \<Rightarrow>
                 if eq = CHR ''='' \<and> takeWhile is_word_char (dropWhile is_space s2) \<noteq> []
                 then
                   (case dropWhile is_word_char (dropWhile is_space s2) of
                      [] \<Rightarrow> None
                    | br # s3 \<Rightarrow>
                        if br = CHR ''[''
                        then Some (takeWhile is_digit s1,
                                   takeWhile is_word_char (dropWhile is_space s2), s3)
                        else None)
                 else None)
          else None
      | _ \<Rightarrow> None)"

text \<open>The whole pattern at the head of \<open>s\<close>, a position where \<open>^\<close> holds.\<close>

definition match_step :: "string \<Rightarrow> (plan_step \<times> bool \<times> string) option" where
  "match_step s =
     (case step_prefix s of
        None \<Rightarrow> None
      | Some (digits, name, s3) \<Rightarrow>
          map_option
            (\<lambda>(arg, b, rest).
               (\<lparr>step_id = digits, step_tool = name, step_argument = arg\<rparr>, b, rest))
            (bracket_tail (length (takeWhile (\<lambda>c. \<not> is_line_terminator c) s3)) s3))"

text \<open>\<open>regex.exec\<close> from the current \<open>lastIndex\<close>: \<open>s\<close> is the text from there on and
  \<open>line_start\<close> tells whether \<open>^\<close> holds there. The result is the first match, the text
  after it and whether \<open>^\<close> holds at the new \<open>lastIndex\<close>.\<close>

fun exec_from :: "bool \<Rightarrow> string \<Rightarrow> (plan_step \<times> bool \<times> string) option" where
  "exec_from line_start [] = None"
| "exec_from line_start (c # cs) =
     (case (if line_start then match_step (c # cs) else None) of
        Some m \<Rightarrow> Some m
      | None \<Rightarrow> exec_from (is_line_terminator c) cs)"

lemma spaces_then_end_shorter: "spaces_then_end k s = Some (b, rest) \<Longrightarrow> length rest \<le> length s"
  by (induction k) (auto split: if_splits)

lemma bracket_here_shorter: "bracket_here n s = Some (a, b, rest) \<Longrightarrow> length rest < length s"
proof -
  assume h: "bracket_here n s = Some (a, b, rest)"
  then obtain c r where d: "drop n s = c # r"
    by (auto simp: bracket_here_def split: list.splits)
  with h obtain b' where "spaces_then_end (length (takeWhile is_space r)) r = Some (b', rest)"
    by (auto simp: bracket_here_def split: if_splits)
  then have "length rest \<le> length r" by (rule spaces_then_end_shorter)
  moreover have "length r < length s"
    using d by (metis length_drop diff_le_self impossible_Cons leI le_trans)
  ultimately show ?thesis by simp
qed

lemma bracket_tail_shorter: "bracket_tail n s = Some (a, b, rest) \<Longrightarrow> length rest < length s"
  by (induction n) (auto split: option.splits dest: bracket_here_shorter)

lemma step_prefix_shorter: "step_prefix s = Some (d, n, s3) \<Longrightarrow> length s3 < length s"
proof -
  assume a: "step_prefix s = Some (d, n, s3)"
  then obtain h e s1 where s: "s = h # e # s1"
    by (auto simp: step_prefix_def split: list.splits)
  from a s obtain eq s2 where s2: "dropWhile is_space (dropWhile is_digit s1) = eq # s2"
    by (auto simp: step_prefix_def split: list.splits if_splits)
  from a s s2 obtain br where s3: "dropWhile is_word_char (dropWhile is_space s2) = br # s3"
    by (auto simp: step_prefix_def split: list.splits if_splits)
  have "length (br # s3) \<le> length s2"
    unfolding s3 [symmetric] by (meson length_dropWhile_le le_trans)
  moreover have "length (eq # s2) \<le> length s1"
    unfolding s2 [symmetric] by (meson length_dropWhile_le le_trans)
  ultimately show ?thesis using s by simp
qed

lemma match_step_shorter:
  assumes "match_step s = Some (m, b, rest)"
  shows "length rest < length s"
proof -
  from assms obtain d n s3 a where p: "step_prefix s = Some (d, n, s3)"
    and t: "bracket_tail (length (takeWhile (\<lambda>c. \<not> is_line_terminator c) s3)) s3 = Some (a, b, rest)"
    by (auto simp: match_step_def split: option.splits)
  from t have "length rest < length s3" by (rule bracket_tail_shorter)
  with step_prefix_shorter [OF p] show ?thesis by simp
qed

lemma exec_from_shorter: "exec_from b s = Some (m, b', rest) \<Longrightarrow> length rest < length s"
proof (induction s arbitrary: b)
  case Nil
  then show ?case by simp
next
  case (Cons c cs)
  show ?case
  proof (cases "if b then match_step (c # cs) else None")
    case None
    with Cons.prems have "exec_from (is_line_terminator c) cs = Some (m, b', rest)" by simp
    from Cons.IH [OF this] show ?thesis by simp
  next
    case (Some r)
    with Cons.prems have "match_step (c # cs) = Some (m, b', rest)" by (auto split: if_splits)
    then show ?thesis by (rule match_step_shorter)
  qed
qed

section \<open>Executing the plan\<close>

record PlanToolExecution =
  exec_id :: string
  tool :: string
  argument :: string
  exec_output :: string
  error :: "string option"

text \<open>A reference at the head of the text, for \<open>/#E(\d+)/g\<close>: its digits and the text
  after them.\<close>

definition ref_at :: "string \<Rightarrow> (string \<times> string) option" where
  "ref_at s =
     (case s of
        h # e # r \<Rightarrow>
          if h = CHR ''#'' \<and> e = CHR ''E'' \<and> takeWhile is_digit r \<noteq> []
          then Some (takeWhile is_digit r, dropWhile is_digit r)
          else None
      | _ \<Rightarrow> None)"

lemma ref_at_shorter: "ref_at s = Some (k, rest) \<Longrightarrow> length rest < length s"
  by (auto simp: ref_at_def less_Suc_eq_le length_dropWhile_le le_SucI split: list.splits if_splits)

text \<open>\<open>rawArgument.replace(/#E(\d+)/g, ...)\<close> with the table \<open>variables\<close>: each reference,
  from left to right, becomes the value stored for its digits, or stays as it is when
  nothing is stored.\<close>

function resolve_refs :: "(string \<rightharpoonup> string) \<Rightarrow> string \<Rightarrow> string" where
  "resolve_refs variables s =
     (case s of
        [] \<Rightarrow> []
      | c # cs \<Rightarrow>
          (case ref_at s of
             Some (referenceId, rest) \<Rightarrow>
               (case variables referenceId of
                  Some v \<Rightarrow> v
                | None \<Rightarrow> ''#E'' @ referenceId) @ resolve_refs variables rest
           | None \<Rightarrow> c # resolve_refs variables cs))"
  by pat_completeness auto
termination
  by (relation "measure (\<lambda>(variables, s). length s)") (auto dest: ref_at_shorter)

declare resolve_refs.simps [simp del]

text \<open>The body of the loop for one match: the execution record and the table after it.
  A tool that throws leaves its message in \<open>error\<close>.\<close>

definition execute_step :: "('a env_scheme) \<Rightarrow> (string \<rightharpoonup> string) \<Rightarrow> plan_step
    \<Rightarrow> PlanToolExecution \<times> (string \<rightharpoonup> string)" where
  "execute_step e variables m =
     (let toolName = toLowerCase (trim (step_tool m));
          resolvedArgument = resolve_refs variables (step_argument m);
          execution = \<lparr>exec_id = ''#E'' @ step_id m, tool = trim (step_tool m),
                       argument = trim resolvedArgument, exec_output = [], error = None\<rparr>;
          finish = (\<lambda>call. case call of
                      Inl thrown \<Rightarrow> (execution\<lparr>error := Some thrown\<rparr>, variables)
                    | Inr out \<Rightarrow> (execution\<lparr>exec_output := out\<rparr>, variables(step_id m \<mapsto> out)))
      in if toolName = ''listfiles'' then finish (listFiles e (trim resolvedArgument))
         else if toolName = ''readfile'' then finish (readFile e (trim resolvedArgument))
         else if toolName = ''searchtext'' then finish (searchText e (trim resolvedArgument))
         else (execution\<lparr>error := Some (''Unsupported tool: '' @ step_tool m)\<rparr>, variables))"

section \<open>Plan sessions\<close>

datatype PlanSessionStatus =
    orchestrating
  | awaiting_clarifications
  | planning
  | executing_tools
  | solving
  | completed

record PlanClarification =
  question :: string
  answer :: string

datatype message_role = user | assistant

record ModelMessage =
  role :: message_role
  content :: string

record PlanSession =
  session_id :: string
  createdAt :: nat
  task :: string
  taskHistory :: "string list"
  status :: PlanSessionStatus
  clarifications :: "PlanClarification list"
  pendingClarification :: "string option"
  planMarkdown :: "string option"
  solverSummary :: "string option"
  toolExecutions :: "PlanToolExecution list"
  planFilePath :: "string option"
  orchestratorMessages :: "ModelMessage list"

subsection \<open>executePlanTools\<close>

text \<open>The variables of the loop; \<open>published\<close> collects the sessions given to
  \<open>sendPlanSessionUpdate\<close>, in order.\<close>

record plan_run =
  variables :: "string \<rightharpoonup> string"
  executions :: "PlanToolExecution list"
  run_session :: PlanSession
  published :: "PlanSession list"

definition plan_iteration :: "('a env_scheme) \<Rightarrow> plan_step \<Rightarrow> plan_run \<Rightarrow> plan_run" where
  "plan_iteration e m st =
     (case execute_step e (variables st) m of
        (execution, variables') \<Rightarrow>
          (let executions' = executions st @ [execution];
               session' = (run_session st)\<lparr>toolExecutions := executions'\<rparr>
           in \<lparr>variables = variables', executions = executions',
               run_session = session', published = published st @ [session']\<rparr>))"

function plan_loop :: "('a env_scheme) \<Rightarrow> bool \<Rightarrow> string \<Rightarrow> plan_run \<Rightarrow> plan_run" where
  "plan_loop e line_start text st =
     (case exec_from line_start text of
        None \<Rightarrow> st
      | Some (m, line_start', rest) \<Rightarrow> plan_loop e line_start' rest (plan_iteration e m st))"
  by pat_completeness auto
termination
  by (relation "measure (\<lambda>(e, line_start, text, st). length text)") (auto dest: exec_from_shorter)

declare plan_loop.simps [simp del]

definition executePlanTools :: "('a env_scheme) \<Rightarrow> PlanSession \<Rightarrow> plan_run" where
  "executePlanTools e session =
     plan_loop e True (or_else (planMarkdown session) [])
       \<lparr>variables = Map.empty, executions = [], run_session = session, published = []\<rparr>"

section \<open>The orchestrator's decision\<close>

text \<open>The value of \<open>JSON.parse\<close>. The text of a number is never looked at.\<close>

datatype json =
    JNull
  | JBool bool
  | JNumber string
  | JString string
  | JArray "json list"
  | JObject "(string \<times> json) list"

text \<open>\<open>parsed?.key\<close> for the keys read here, none of which is a property of a string, an
  array, a number or a boolean.\<close>

definition property :: "json \<Rightarrow> string \<Rightarrow> json option" where
  "property j key = (case j of JObject members \<Rightarrow> map_of members key | _ \<Rightarrow> None)"

text \<open>\<open>typeof parsed.key === "string" ? parsed.key : undefined\<close>\<close>

definition string_property :: "json \<Rightarrow> string \<Rightarrow> string option" where
  "string_property j key = (case property j key of Some (JString v) \<Rightarrow> Some v | _ \<Rightarrow> None)"

datatype decision_action = clarify | proceed

record OrchestratorDecision =
  action :: decision_action
  decision_question :: "string option"
  summary :: "string option"
  reasoning :: "string option"

definition fence :: string where
  "fence = [CHR 0x60, CHR 0x60, CHR 0x60]"

text \<open>\<open>text.replace(/```json/gi, "")\<close>\<close>

fun remove_json_fences :: "string \<Rightarrow> string" where
  "remove_json_fences [] = []"
| "remove_json_fences (c # cs) =
     (if take 3 (c # cs) = fence \<and> toLowerCase (take 4 (drop 2 cs)) = ''json''
      then remove_json_fences (drop 6 cs)
      else c # remove_json_fences cs)"

text \<open>\<open>text.replace(/```/g, "")\<close>\<close>

fun remove_fences :: "string \<Rightarrow> string" where
  "remove_fences [] = []"
| "remove_fences (c # cs) =
     (if take 3 (c # cs) = fence
      then remove_fences (drop 2 cs)
      else c # remove_fences cs)"

definition sanitizeJson :: "string \<Rightarrow> string" where
  "sanitizeJson text = trim (remove_fences (remove_json_fences text))"

text \<open>The decision, and the lines given to \<open>logger.appendLine\<close>. \<open>parse\<close> is
  \<open>JSON.parse\<close>: the value, or \<open>Inl\<close> the text of the error it throws.\<close>

definition parseOrchestratorDecision :: "(string \<Rightarrow> string + json) \<Rightarrow> string
    \<Rightarrow> OrchestratorDecision \<times> string list" where
  "parseOrchestratorDecision parse raw =
     (let cleaned = sanitizeJson raw;
          fallback = \<lparr>action = proceed, decision_question = None, summary = Some cleaned,
                      reasoning = None\<rparr>
      in case parse cleaned of
           Inl err \<Rightarrow>
             (fallback,
              [''WARN: Unable to parse orchestrator decision, falling back to proceed. Raw output: ''
                 @ cleaned @ '' Error: '' @ err])
         | Inr parsed \<Rightarrow>
             if property parsed ''action'' = Some (JString ''clarify'')
                \<and> string_property parsed ''question'' \<noteq> None
             then (\<lparr>action = clarify,
                    decision_question = map_option trim (string_property parsed ''question''),
                    summary = None,
                    reasoning = string_property parsed ''reasoning''\<rparr>, [])
             else if property parsed ''action'' = Some (JString ''proceed'')
             then (\<lparr>action = proceed,
                    decision_question = None,
                    summary = map_option trim (string_property parsed ''summary''),
                    reasoning = string_property parsed ''reasoning''\<rparr>, [])
             else (fallback, []))"

section \<open>planModeChat\<close>

text \<open>
  The provider holds the current session. What the engine gets from outside is a
  parameter: whether a chat model is configured (\<open>apiReasoning ?? apiChat\<close>), what the
  model streams for a stage (1 orchestrator, 2 planner, 3 solver) on a session, or which
  error ends the stream, \<open>JSON.parse\<close>, what persisting the plan document answers, and
  the identifier and time given to a new session. The chat transcript, the response
  texts and the reasoning callbacks are left out: they do not touch the session.
\<close>

datatype thrown = AbortError | OtherError

record provider = env +
  planSession :: "PlanSession option"
  has_model :: bool
  stream_text :: "nat \<Rightarrow> PlanSession \<Rightarrow> thrown + string"
  JSON_parse :: "string \<Rightarrow> string + json"
  persist_plan :: "PlanSession \<Rightarrow> thrown + string option"
  new_session_id :: string
  now :: nat

text \<open>\<open>runModel\<close> returns the streamed text, trimmed.\<close>

definition runModel :: "provider \<Rightarrow> nat \<Rightarrow> PlanSession \<Rightarrow> thrown + string" where
  "runModel p stageNumber session =
     (case stream_text p stageNumber session of
        Inl err \<Rightarrow> Inl err
      | Inr chunks \<Rightarrow> Inr (trim chunks))"

text \<open>Modelled from the spec: \<open>provider.startPlanSession\<close>, which is not among the
  sources. It makes a session in the initial state \<open>orchestrating\<close>, with a fresh
  identifier and \<open>taskHistory\<close> seeded with the task.\<close>

definition startPlanSession :: "provider \<Rightarrow> string \<Rightarrow> PlanSession" where
  "startPlanSession p t =
     \<lparr>session_id = new_session_id p, createdAt = now p, task = t, taskHistory = [t],
      status = orchestrating, clarifications = [], pendingClarification = None,
      planMarkdown = None, solverSummary = None, toolExecutions = [], planFilePath = None,
      orchestratorMessages = []\<rparr>"

text \<open>Modelled from the spec: \<open>provider.persistPlanContent\<close>, which is not among the
  sources. It answers with the storage location, or none, kept in \<open>planFilePath\<close>.\<close>

definition persistPlanContent :: "provider \<Rightarrow> PlanSession \<Rightarrow> thrown + PlanSession" where
  "persistPlanContent p session =
     (case persist_plan p session of
        Inl err \<Rightarrow> Inl err
      | Inr location \<Rightarrow> Inr (session\<lparr>planFilePath := location\<rparr>))"

text \<open>The session the call works on, and whether it is the one the provider held before
  the call. The test \<open>session !== provider.planSession\<close> is taken to hold exactly for a
  session made in this call, as the comment of its branch says.\<close>

definition current_session :: "provider \<Rightarrow> string \<Rightarrow> PlanSession \<times> bool" where
  "current_session p trimmedQuestion =
     (case planSession p of
        None \<Rightarrow> (startPlanSession p trimmedQuestion, False)
      | Some session \<Rightarrow>
          if status session = completed then (startPlanSession p trimmedQuestion, False)
          else (session, True))"

text \<open>The session after the input has been taken in, as it is first published.\<close>

definition accept_input :: "provider \<Rightarrow> string \<Rightarrow> PlanSession" where
  "accept_input p trimmedQuestion =
     (case current_session p trimmedQuestion of
        (session, held) \<Rightarrow>
          (let session' =
                 (case truthy (pendingClarification session) of
                    Some pending \<Rightarrow>
                      session\<lparr>clarifications := clarifications session
                                  @ [\<lparr>question = pending, answer = trimmedQuestion\<rparr>],
                               pendingClarification := None,
                               status := orchestrating\<rparr>
                  | None \<Rightarrow>
                      if \<not> held then session
                      else if status session = orchestrating
                      then session\<lparr>taskHistory := taskHistory session @ [trimmedQuestion]\<rparr>
                      else if status session = awaiting_clarifications
                      then session\<lparr>taskHistory := taskHistory session @ [trimmedQuestion]\<rparr>
                      else startPlanSession p trimmedQuestion)
           in session'\<lparr>orchestratorMessages := orchestratorMessages session'
                          @ [\<lparr>role = user, content = trimmedQuestion\<rparr>]\<rparr>))"

datatype chat_end = returned | threw

record chat_result =
  final_session :: PlanSession
  updates :: "PlanSession list"
  ending :: chat_end

definition chat_done :: "PlanSession \<Rightarrow> PlanSession list \<Rightarrow> chat_result" where
  "chat_done session sent = \<lparr>final_session = session, updates = sent, ending = returned\<rparr>"

text \<open>The stages after the planner has answered. An error of the model or of the
  persistence is caught: the call returns with the session as it stands.\<close>

definition run_plan :: "provider \<Rightarrow> PlanSession \<Rightarrow> PlanSession list \<Rightarrow> string \<Rightarrow> chat_result" where
  "run_plan p session sent plan =
     (let s1 = session\<lparr>planMarkdown := Some plan\<rparr>;
          s2 = s1\<lparr>status := executing_tools\<rparr>;
          run = executePlanTools p s2;
          s3 = (run_session run)\<lparr>toolExecutions := executions run\<rparr>;
          s4 = s3\<lparr>status := solving\<rparr>;
          sent4 = sent @ [s1, s2] @ published run @ [s3, s4]
      in case runModel p 3 s4 of
           Inl err \<Rightarrow> chat_done s4 sent4
         | Inr solution \<Rightarrow>
             (case persistPlanContent p (s4\<lparr>solverSummary := Some solution\<rparr>) of
                Inl err \<Rightarrow> chat_done (s4\<lparr>solverSummary := Some solution\<rparr>) sent4
              | Inr s5 \<Rightarrow>
                  chat_done (s5\<lparr>status := completed\<rparr>) (sent4 @ [s5\<lparr>status := completed\<rparr>])))"

definition planModeChat :: "provider \<Rightarrow> string \<Rightarrow> chat_result" where
  "planModeChat p userQuestion =
     (let trimmedQuestion = trim userQuestion;
          session = accept_input p trimmedQuestion
      in if \<not> has_model p
         then \<lparr>final_session = session, updates = [session], ending = threw\<rparr>
         else
           (case runModel p 1 session of
              Inl err \<Rightarrow> chat_done session [session]
            | Inr answered \<Rightarrow>
                (let decision = fst (parseOrchestratorDecision (JSON_parse p) answered)
                 in case (if action decision = clarify then truthy (decision_question decision)
                          else None) of
                      Some asked \<Rightarrow>
                        (let s1 = session\<lparr>status := awaiting_clarifications,
                                     pendingClarification := Some asked,
                                     orchestratorMessages := orchestratorMessages session
                                       @ [\<lparr>role = assistant, content = asked\<rparr>]\<rparr>
                         in chat_done s1 [session, s1])
                    | None \<Rightarrow>
                        (let s1 = session\<lparr>status := planning\<rparr>
                         in case runModel p 2 s1 of
                              Inl err \<Rightarrow> chat_done s1 [session, s1]
                            | Inr plan \<Rightarrow> run_plan p s1 [session, s1] plan))))"

text \<open>The provider after the call: it holds the session the call worked on.\<close>

definition provider_after :: "provider \<Rightarrow> string \<Rightarrow> provider" where
  "provider_after p userQuestion =
     p\<lparr>planSession := Some (final_session (planModeChat p userQuestion))\<rparr>"

section \<open>Notions used in the statements\<close>

text \<open>The matches of the step pattern in a text, in the order \<open>regex.exec\<close> finds them.\<close>

function plan_matches :: "bool \<Rightarrow> string \<Rightarrow> plan_step list" where
  "plan_matches line_start s =
     (case exec_from line_start s of
        None \<Rightarrow> []
      | Some (m, line_start', rest) \<Rightarrow> m # plan_matches line_start' rest)"
  by pat_completeness auto
termination
  by (relation "measure (\<lambda>(line_start, s). length s)") (auto dest: exec_from_shorter)

declare plan_matches.simps [simp del]

text \<open>The executions of a list of steps, each run on the table its predecessors leave.\<close>

fun step_executions :: "('a env_scheme) \<Rightarrow> (string \<rightharpoonup> string) \<Rightarrow> plan_step list
    \<Rightarrow> PlanToolExecution list" where
  "step_executions e table [] = []"
| "step_executions e table (m # ms) =
     fst (execute_step e table m) # step_executions e (snd (execute_step e table m)) ms"

text \<open>The table of outputs that a list of steps and their executions leaves: a step that
  ended without an error stores its output under its digits, a later one replacing an
  earlier one.\<close>

fun outputs_of :: "(plan_step \<times> PlanToolExecution) list \<Rightarrow> (string \<rightharpoonup> string) \<Rightarrow> (string \<rightharpoonup> string)" where
  "outputs_of [] table = table"
| "outputs_of ((m, x) # rest) table =
     outputs_of rest (if error x = None then table(step_id m \<mapsto> exec_output x) else table)"

text \<open>What an execution record holds after a call of a tool: the message in \<open>error\<close>
  when the call throws, the returned text in \<open>output\<close> otherwise.\<close>

definition tool_outcome :: "string + string \<Rightarrow> PlanToolExecution \<Rightarrow> bool" where
  "tool_outcome call x =
     (case call of
        Inl thrown \<Rightarrow> error x = Some thrown \<and> exec_output x = []
      | Inr out \<Rightarrow> error x = None \<and> exec_output x = out)"

text \<open>The record of a step: its identifier and tool name, the error of a tool name that
  is not supported, and the outcome of the tool otherwise.\<close>

definition step_record :: "('a env_scheme) \<Rightarrow> plan_step \<Rightarrow> PlanToolExecution \<Rightarrow> bool" where
  "step_record e m x =
     (exec_id x = ''#E'' @ step_id m
      \<and> tool x = trim (step_tool m)
      \<and> (toLowerCase (trim (step_tool m)) \<notin> {''listfiles'', ''readfile'', ''searchtext''} \<longrightarrow>
           error x = Some (''Unsupported tool: '' @ step_tool m) \<and> exec_output x = [])
      \<and> (toLowerCase (trim (step_tool m)) = ''listfiles'' \<longrightarrow> tool_outcome (listFiles e (argument x)) x)
      \<and> (toLowerCase (trim (step_tool m)) = ''readfile'' \<longrightarrow> tool_outcome (readFile e (argument x)) x)
      \<and> (toLowerCase (trim (step_tool m)) = ''searchtext'' \<longrightarrow> tool_outcome (searchText e (argument x)) x))"

text \<open>Whether a text holds a reference \<open>#E\<close> followed by a digit.\<close>

fun has_ref :: "string \<Rightarrow> bool" where
  "has_ref [] = False"
| "has_ref (c # cs) = (case ref_at (c # cs) of Some r \<Rightarrow> True | None \<Rightarrow> has_ref cs)"

text \<open>The lines of a text, as \<open>^\<close> and \<open>$\<close> see them: every line terminator ends a line.\<close>

fun text_lines :: "string \<Rightarrow> string list" where
  "text_lines [] = [[]]"
| "text_lines (c # cs) =
     (if is_line_terminator c then [] # text_lines cs
      else (case text_lines cs of
              [] \<Rightarrow> [[c]]
            | l # ls \<Rightarrow> (c # l) # ls))"

text \<open>The step that a line is, when the whole line matches the step pattern.\<close>

definition line_step :: "string \<Rightarrow> plan_step option" where
  "line_step l =
     (case match_step l of
        None \<Rightarrow> None
      | Some (m, b, rest) \<Rightarrow> if rest = [] then Some m else None)"

definition matching_lines :: "string \<Rightarrow> plan_step list" where
  "matching_lines plan = List.map_filter line_step (text_lines plan)"

text \<open>A line that is only the head of a step: \<open>#E\<close>, digits and white space, with or
  without the equals sign, and nothing after it.\<close>

definition step_head :: "string \<Rightarrow> bool" where
  "step_head l =
     (case l of
        h # e # s1 \<Rightarrow>
          h = CHR ''#'' \<and> e = CHR ''E'' \<and> takeWhile is_digit s1 \<noteq> []
          \<and> (case dropWhile is_space (dropWhile is_digit s1) of
                 [] \<Rightarrow> True
               | eq # s2 \<Rightarrow> eq = CHR ''='' \<and> dropWhile is_space s2 = [])
      | _ \<Rightarrow> False)"

text \<open>A text with no line terminator in it.\<close>

definition line_text :: "string \<Rightarrow> bool" where
  "line_text l = (\<forall>c \<in> set l. \<not> is_line_terminator c)"

text \<open>How the match on a line alone is carried to the line followed by \<open>r\<close>, where
  \<open>r\<close> is empty or starts with a line terminator: no match stays no match, and a match
  takes the whole line alone, and on the longer text the same with white space of \<open>r\<close>
  after it, up to a line terminator or the end.\<close>

definition carried :: "string \<Rightarrow> ('a \<times> bool \<times> string) option \<Rightarrow> ('a \<times> bool \<times> string) option \<Rightarrow> bool" where
  "carried r alone longer =
     (case alone of
        None \<Rightarrow> longer = None
      | Some (x, b, rest) \<Rightarrow>
          rest = [] \<and>
          (\<exists>b' w r'. longer = Some (x, b', r') \<and> r = w @ r' \<and> (\<forall>c \<in> set w. is_space c) \<and> at_line_end r'))"

text \<open>The search from a line terminator on.\<close>

definition after_break :: "string \<Rightarrow> (plan_step \<times> bool \<times> string) option" where
  "after_break x = (case x of [] \<Rightarrow> None | c # y \<Rightarrow> exec_from True y)"

text \<open>The invariant of a session: a pending question is there exactly in the state
  \<open>awaiting_clarifications\<close>, and it is never the empty string.\<close>

definition session_ok :: "PlanSession \<Rightarrow> bool" where
  "session_ok s =
     (((pendingClarification s \<noteq> None) = (status s = awaiting_clarifications))
      \<and> pendingClarification s \<noteq> Some [])"

text \<open>The sessions that a series of calls of \<open>planModeChat\<close> publishes and returns with,
  in order. Each call has its own outside world (what the models stream, the file
  system); the provider keeps the session from one call to the next, and holds none
  before the first.\<close>

fun chat_sessions :: "PlanSession option \<Rightarrow> (provider \<times> string) list \<Rightarrow> PlanSession list" where
  "chat_sessions held [] = []"
| "chat_sessions held ((p, userQuestion) # calls) =
     (let r = planModeChat (p\<lparr>planSession := held\<rparr>) userQuestion
      in updates r @ [final_session r] @ chat_sessions (Some (final_session r)) calls)"

section \<open>An example workspace\<close>

text \<open>A small workspace on which the theorems below are tried: the root \<open>/ws\<close> holds a
  build directory \<open>dist\<close>, a source directory, a note and a file above the size ceiling.
  No pattern compiles, so lines are tested by substring.\<close>

definition demo_nodes :: "(string \<times> fs_node) list" where
  "demo_nodes =
     [(''/ws'', Directory (Inr [(''dist'', True), (''src'', True), (''notes.md'', False), (''big.bin'', False)])),
      (''/ws/dist'', Directory (Inr [(''main.js'', False)])),
      (''/ws/dist/main.js'', RegularFile 4 (Inr ''TODO'')),
      (''/ws/src'', Directory (Inr [(''main.ts'', False)])),
      (''/ws/src/main.ts'', RegularFile 8 (Inr (''x'' @ [LF] @ '' todo ''))),
      (''/ws/notes.md'', RegularFile 7 (Inr ''see #E1'')),
      (''/ws/big.bin'', RegularFile 200001 (Inr ''TODO''))]"

definition demo_env :: env where
  "demo_env =
     \<lparr>resolveWorkspacePath = (\<lambda>p. Inr (Some (if p = ''.'' then ''/ws'' else ''/ws/'' @ p))),
      fs_nodes = demo_nodes,
      io_error = (\<lambda>operation p. ''ENOENT: '' @ p),
      compile_regex = (\<lambda>pattern. None),
      locale_sort = (\<lambda>entries. entries),
      path_join = (\<lambda>d entry. d @ ''/'' @ entry),
      path_relative = (\<lambda>root p. drop (length root + 1) p),
      path_basename = (\<lambda>p. p)\<rparr>"

text \<open>A provider on that workspace. The orchestrator asks one question, then proceeds;
  the planner answers with \<open>demo_plan\<close>.\<close>

definition demo_clarify :: string where
  \<open>demo_clarify = ''{"action":"clarify","question":"Which file?"}''\<close>

definition demo_proceed :: string where
  \<open>demo_proceed = ''{"action":"proceed","summary":"read the notes"}''\<close>

definition demo_plan :: string where
  "demo_plan = ''Plan: read the notes'' @ [LF] @ ''#E1 = ReadFile[notes.md]'' @ [LF]
     @ ''#E3 = SearchText[#E1 | #E9]'' @ [LF] @ ''#E2 = DeleteFile[tmp]'' @ [LF]
     @ ''#E4 = ReadFile[src]'' @ [LF] @ ''#E5 = ListFiles[#E2]''"

definition demo_provider :: provider where
  "demo_provider =
     \<lparr>resolveWorkspacePath = resolveWorkspacePath demo_env,
      fs_nodes = fs_nodes demo_env,
      io_error = io_error demo_env,
      compile_regex = compile_regex demo_env,
      locale_sort = locale_sort demo_env,
      path_join = path_join demo_env,
      path_relative = path_relative demo_env,
      path_basename = path_basename demo_env,
      planSession = None,
      has_model = True,
      stream_text = (\<lambda>stage session.
        if stage = 1 then (if clarifications session = [] then Inr demo_clarify else Inr demo_proceed)
        else if stage = 2 then Inr demo_plan
        else Inr ''## Summary''),
      JSON_parse = (\<lambda>text.
        if text = demo_clarify
        then Inr (JObject [(''action'', JString ''clarify''), (''question'', JString ''Which file?'')])
        else if text = demo_proceed
        then Inr (JObject [(''action'', JString ''proceed''), (''summary'', JString ''read the notes'')])
        else Inl ''SyntaxError: Unexpected token''),
      persist_plan = (\<lambda>session. Inr (Some ''/ws/.plans/plan.md'')),
      new_session_id = ''plan-1'',
      now = 0\<rparr>"

definition demo_waiting :: PlanSession where
  "demo_waiting =
     (startPlanSession demo_provider ''fix it'')
       \<lparr>status := awaiting_clarifications, pendingClarification := Some ''Which file?''\<rparr>"

definition demo_session :: PlanSession where
  "demo_session = (startPlanSession demo_provider ''task'')\<lparr>planMarkdown := Some demo_plan\<rparr>"

section \<open>Invariants of the traversal\<close>

definition within_limits :: "('a env_scheme) \<Rightarrow> search_state \<Rightarrow> bool" where
  "within_limits e st =
     (length (results st) \<le> maxResults
      \<and> scannedFiles st \<le> maxFiles
      \<and> length (file_reads st) = scannedFiles st
      \<and> (\<forall>f \<in> set (file_reads st).
            \<exists>n r. map_of (fs_nodes e) f = Some (RegularFile n r) \<and> n \<le> maxFileSize))"

text \<open>A path is admitted when it is the starting path, or was made from a directory
  already visited and one of its entries whose name is not in the skip set.\<close>

definition admitted :: "('a env_scheme) \<Rightarrow> string \<Rightarrow> string list \<Rightarrow> string \<Rightarrow> bool" where
  "admitted e start seen p =
     (p = start \<or>
      (\<exists>d entries entry.
         d \<in> set seen
         \<and> map_of (fs_nodes e) d = Some (Directory (Inr entries))
         \<and> entry \<in> fst ` set entries
         \<and> entry \<notin> skipDirectories
         \<and> p = path_join e d entry))"

definition all_admitted :: "('a env_scheme) \<Rightarrow> string \<Rightarrow> search_state \<Rightarrow> bool" where
  "all_admitted e start st =
     (\<forall>p \<in> set (queue st) \<union> set (visited st) \<union> set (file_reads st).
        admitted e start (visited st) p)"

section \<open>Properties of the tools\<close>

lemmas demo_simps = search_continues_def search_start_def search_step_def demo_env_def
  demo_nodes_def fs_stat_def maxFiles_def maxResults_def maxFileSize_def skipDirectories_def
  Let_def line_matches_def LF_def CR_def trim_def is_space_def or_else_def truthy_def
  toLowerCase_def to_lower_char_def upper_case_letters_def lower_case_letters_def

lemma search_loop_continue:
  "search_continues st \<Longrightarrow> search_loop e w t st = search_loop e w t (search_step e w t st)"
  by (subst search_loop.simps) simp

lemma search_loop_stop: "\<not> search_continues st \<Longrightarrow> search_loop e w t st = st"
  by (subst search_loop.simps) simp

lemma demo_search:
  "search_loop demo_env ''/ws'' (line_matches demo_env ''todo'') (search_start ''/ws'')
   = \<lparr>queue = [],
    visited =
      [''/ws/src/main.ts'', ''/ws/big.bin'', ''/ws/notes.md'', ''/ws/src'',
       ''/ws''],
    results = [''src/main.ts:2: todo''],
    scannedFiles = 2, file_reads = [''/ws/notes.md'', ''/ws/src/main.ts'']\<rparr>"
  by (simp add: search_loop_continue search_loop_stop demo_simps show_nat.simps digit_char_def)


lemma readFile_truncates:
  "resolveWorkspacePath e a = Inr (Some r) \<Longrightarrow> r \<noteq> [] \<Longrightarrow>
   map_of (fs_nodes e) r = Some (RegularFile n (Inr data)) \<Longrightarrow>
   readFile e a = Inr (truncateOutput data)"
  by (simp add: readFile_def truthy_def fs_stat_def fs_readFile_def)

lemma searchText_truncates:
  "searchText e a = Inr out \<Longrightarrow>
   out = ''SearchText requires a pattern argument.''
   \<or> out = ''Unable to resolve search path inside the workspace.''
   \<or> out = ''No results from SearchText.''
   \<or> (\<exists>found. found \<noteq> [] \<and> out = truncateOutput (join_with [LF] found))"
  by (auto simp: searchText_def search_report_def Let_def
      split: prod.splits if_splits sum.splits option.splits)

subsection \<open>The truncation notice\<close>











subsection \<open>The argument of SearchText\<close>

lemma split_on_no_separator: "c \<notin> set s \<Longrightarrow> split_on c s = [s]"
  by (induction s) auto

lemma split_on_not_Nil: "split_on c s \<noteq> []"
  by (induction s) (auto split: list.splits)

lemma hd_split_on: "hd (split_on c s) = takeWhile (\<lambda>x. x \<noteq> c) s"
  by (induction s) (auto simp: split_on_not_Nil split: list.splits)

lemma split_on_first: "c \<notin> set p \<Longrightarrow> split_on c (p @ c # r) = p # split_on c r"
  by (induction p) auto

lemma search_args_no_bar: "CHR ''|'' \<notin> set a \<Longrightarrow> search_args a = (trim a, None)"
  by (simp add: search_args_def split_on_no_separator)

lemma search_args_bar:
  assumes "CHR ''|'' \<notin> set p"
  shows "search_args (p @ CHR ''|'' # r) = (trim p, Some (trim (takeWhile (\<lambda>x. x \<noteq> CHR ''|'') r)))"
proof -
  obtain x xs where x: "split_on (CHR ''|'') r = x # xs"
    using split_on_not_Nil [of "CHR ''|''" r] by (cases "split_on (CHR ''|'') r") auto
  with hd_split_on [of "CHR ''|''" r] have "x = takeWhile (\<lambda>x. x \<noteq> CHR ''|'') r" by simp
  with x assms show ?thesis by (simp add: search_args_def split_on_first)
qed

text \<open>
  Claim C9, as the claim states it, fails: the argument is split at every \<open>|\<close>, and the
  path is the second part only. With two bars the text after the second one is dropped.
\<close>

theorem search_args_counterexample:
  "search_args ''TODO|src|lib'' = (''TODO'', Some ''src'')
   \<and> snd (search_args ''TODO|src|lib'') \<noteq> Some (trim ''src|lib'')"
  by (simp add: search_args_def trim_def is_space_def)

text \<open>
  Claim C9, amended. The pattern is the trimmed text before the first \<open>|\<close> (the whole
  trimmed argument when there is none). The path is the trimmed text between the first
  \<open>|\<close> and the second one, or the end of the argument when there is no second one. When
  no path is given, or it is empty, the search starts at the path the resolver gives for
  \<open>.\<close>, the workspace root; otherwise at the path it gives for the given one.
\<close>

theorem searchText_argument:
  "(CHR ''|'' \<notin> set a \<longrightarrow> search_args a = (trim a, None))
   \<and> (CHR ''|'' \<notin> set p \<longrightarrow>
        search_args (p @ CHR ''|'' # r)
          = (trim p, Some (trim (takeWhile (\<lambda>x. x \<noteq> CHR ''|'') r))))
   \<and> (search_args b = (pattern, rawPath) \<and> pattern \<noteq> [] \<and> (rawPath = None \<or> rawPath = Some [])
        \<and> resolveWorkspacePath e ''.'' = Inr (Some root) \<and> root \<noteq> [] \<longrightarrow>
        searchText e b = Inr (search_report e root pattern root))
   \<and> (search_args c = (pattern', Some given) \<and> pattern' \<noteq> [] \<and> given \<noteq> []
        \<and> resolveWorkspacePath e' given = Inr (Some resolved) \<and> resolved \<noteq> []
        \<and> resolveWorkspacePath e' ''.'' = Inr (Some root') \<and> root' \<noteq> [] \<longrightarrow>
        searchText e' c = Inr (search_report e' root' pattern' resolved))"
  using search_args_no_bar search_args_bar
  by (auto simp: searchText_def or_else_def truthy_def)

theorem searchText_argument_witness:
  "CHR ''|'' \<notin> set ''todo''
   \<and> search_args ''todo'' = (''todo'', None)
   \<and> search_args (''todo '' @ CHR ''|'' # '' src | x'') = (''todo'', Some ''src'')
   \<and> resolveWorkspacePath demo_env ''.'' = Inr (Some ''/ws'')
   \<and> searchText demo_env ''todo'' = Inr (search_report demo_env ''/ws'' ''todo'' ''/ws'')
   \<and> resolveWorkspacePath demo_env ''src'' = Inr (Some ''/ws/src'')
   \<and> searchText demo_env ''todo | src | x''
       = Inr (search_report demo_env ''/ws'' ''todo'' ''/ws/src'')"
proof -
  have a: "search_args ''todo'' = (''todo'', None)"
    by (simp add: search_args_def trim_def is_space_def)
  have b: "search_args ''todo | src | x'' = (''todo'', Some ''src'')"
    by (simp add: search_args_def trim_def is_space_def)
  have r: "resolveWorkspacePath demo_env ''.'' = Inr (Some ''/ws'')"
    "resolveWorkspacePath demo_env ''src'' = Inr (Some ''/ws/src'')"
    by (simp_all add: demo_env_def)
  from a b r
    searchText_argument [of "''todo''" "''todo ''" "'' src | x''" "''todo''" "''todo''" None
      demo_env "''/ws''" "''todo | src | x''" "''todo''" "''src''" demo_env "''/ws/src''" "''/ws''"]
  show ?thesis by (simp add: trim_def is_space_def)
qed

subsection \<open>The limits of the traversal\<close>

lemma scan_lines_bound:
  "length res \<le> maxResults \<Longrightarrow> length (scan_lines t rel i ls res) \<le> maxResults"
  by (induction ls arbitrary: i res) auto

lemma within_limits_step:
  assumes "within_limits e st" and "search_continues st"
  shows "within_limits e (search_step e w t st)"
proof (cases "hd (queue st) \<in> set (visited st)")
  case True
  with assms show ?thesis by (simp add: search_step_def within_limits_def Let_def)
next
  case False
  with assms show ?thesis
    by (auto simp: search_step_def within_limits_def search_continues_def Let_def fs_stat_def
          scan_lines_bound
        split: sum.splits fs_node.splits option.splits)
qed

lemma within_limits_loop: "within_limits e st \<Longrightarrow> within_limits e (search_loop e w t st)"
proof (induction e w t st rule: search_loop.induct)
  case (1 e w t st)
  show ?case
  proof (cases "search_continues st")
    case True
    with 1 have "within_limits e (search_loop e w t (search_step e w t st))"
      by (simp add: within_limits_step)
    with True show ?thesis by (subst search_loop.simps) simp
  next
    case False
    with 1 show ?thesis by (subst search_loop.simps) simp
  qed
qed

text \<open>
  Claim C4. Whatever the file table, the pattern and the starting path, the traversal of
  \<open>searchText\<close> ends with at most 40 result lines, has given at most 120 paths to
  \<open>fs.readFile\<close>, and every path it has read is a regular file whose size is at most
  200000 bytes: a larger file is never read.
\<close>

theorem searchText_limits:
  "length (results (search_loop e w t (search_start p))) \<le> 40
   \<and> length (file_reads (search_loop e w t (search_start p))) \<le> 120
   \<and> (\<forall>f \<in> set (file_reads (search_loop e w t (search_start p))).
         \<exists>n r. map_of (fs_nodes e) f = Some (RegularFile n r) \<and> n \<le> 200000)"
proof -
  have "within_limits e (search_start p)"
    by (simp add: within_limits_def search_start_def)
  then have "within_limits e (search_loop e w t (search_start p))"
    by (rule within_limits_loop)
  then show ?thesis
    by (simp add: within_limits_def maxResults_def maxFiles_def maxFileSize_def)
qed

theorem searchText_limits_witness:
  "''/ws/notes.md'' \<in> set (file_reads (search_loop demo_env ''/ws'' (line_matches demo_env ''todo'') (search_start ''/ws'')))
   \<and> (\<exists>n r. map_of (fs_nodes demo_env) ''/ws/notes.md'' = Some (RegularFile n r) \<and> n \<le> 200000)
   \<and> map_of (fs_nodes demo_env) ''/ws/big.bin'' = Some (RegularFile 200001 (Inr ''TODO''))
   \<and> ''/ws/big.bin'' \<notin> set (file_reads (search_loop demo_env ''/ws'' (line_matches demo_env ''todo'') (search_start ''/ws'')))"
  using searchText_limits [of demo_env "''/ws''" "line_matches demo_env ''todo''" "''/ws''"]
  by (simp add: demo_search) (simp add: demo_env_def demo_nodes_def)

subsection \<open>The skipped names\<close>

lemma admitted_mono: "admitted e start seen p \<Longrightarrow> set seen \<subseteq> set seen' \<Longrightarrow> admitted e start seen' p"
  unfolding admitted_def by blast

lemma all_admitted_step:
  assumes inv: "all_admitted e start st" and q: "queue st \<noteq> []"
  shows "all_admitted e start (search_step e w t st)"
proof -
  obtain c cs where qs: "queue st = c # cs" using q by (cases "queue st") auto
  have c: "admitted e start (visited st) c"
    using inv qs by (simp add: all_admitted_def)
  have old: "admitted e start (c # visited st) p"
    if "p \<in> set (queue st) \<union> set (visited st) \<union> set (file_reads st)" for p
    using inv that admitted_mono [of e start "visited st" p "c # visited st"]
    by (auto simp: all_admitted_def)
  show ?thesis
  proof (cases "c \<in> set (visited st)")
    case True
    with inv qs show ?thesis by (simp add: search_step_def all_admitted_def Let_def)
  next
    case False
    have new: "admitted e start (c # visited st) (path_join e c entry)"
      if "map_of (fs_nodes e) c = Some (Directory (Inr entries))"
        and "entry \<in> fst ` set entries" and "entry \<notin> skipDirectories" for entries entry
      using that unfolding admitted_def by (intro disjI2 exI [of _ c] exI [of _ entries] exI [of _ entry]) simp
    from False qs old new show ?thesis
      by (auto simp: search_step_def all_admitted_def Let_def fs_stat_def
          split: sum.splits fs_node.splits option.splits)
  qed
qed


lemma all_admitted_loop:
  "all_admitted e start st \<Longrightarrow> all_admitted e start (search_loop e w t st)"
proof (induction e w t st rule: search_loop.induct)
  case (1 e w t st)
  show ?case
  proof (cases "search_continues st")
    case True
    then have "queue st \<noteq> []" by (simp add: search_continues_def)
    with 1 True have "all_admitted e start (search_loop e w t (search_step e w t st))"
      by (simp add: all_admitted_step)
    with True show ?thesis by (subst search_loop.simps) simp
  next
    case False
    with 1 show ?thesis by (simp add: search_loop_stop)
  qed
qed


text \<open>
  Claim C10. A name of a directory listing is tested against the skip set before
  anything is known of the entry, so every path that the traversal has queued, visited
  (given to \<open>fs.stat\<close>) or read is the starting path, or was made from a visited directory
  and an entry of its listing whose name is none of \<open>.git\<close>, \<open>node_modules\<close>, \<open>.turbo\<close>,
  \<open>.next\<close>, \<open>dist\<close> and \<open>build\<close>, whether that entry is a directory or a file.
\<close>

theorem searchText_skips_entries:
  "\<forall>p \<in> set (queue (search_loop e w t (search_start start)))
        \<union> set (visited (search_loop e w t (search_start start)))
        \<union> set (file_reads (search_loop e w t (search_start start))).
     p = start \<or>
     (\<exists>d entries entry.
        d \<in> set (visited (search_loop e w t (search_start start)))
        \<and> map_of (fs_nodes e) d = Some (Directory (Inr entries))
        \<and> entry \<in> fst ` set entries
        \<and> entry \<notin> {''.git'', ''node_modules'', ''.turbo'', ''.next'', ''dist'', ''build''}
        \<and> p = path_join e d entry)"
proof -
  have "all_admitted e start (search_start start)"
    by (simp add: all_admitted_def admitted_def search_start_def)
  then have "all_admitted e start (search_loop e w t (search_start start))"
    by (rule all_admitted_loop)
  then show ?thesis
    unfolding all_admitted_def admitted_def skipDirectories_def .
qed

theorem searchText_skips_entries_witness:
  "''/ws/src/main.ts'' \<in> set (file_reads (search_loop demo_env ''/ws'' (line_matches demo_env ''todo'') (search_start ''/ws'')))
   \<and> (''/ws/src/main.ts'' = ''/ws'' \<or>
      (\<exists>d entries entry.
        d \<in> set (visited (search_loop demo_env ''/ws'' (line_matches demo_env ''todo'') (search_start ''/ws'')))
        \<and> map_of (fs_nodes demo_env) d = Some (Directory (Inr entries))
        \<and> entry \<in> fst ` set entries
        \<and> entry \<notin> {''.git'', ''node_modules'', ''.turbo'', ''.next'', ''dist'', ''build''}
        \<and> ''/ws/src/main.ts'' = path_join demo_env d entry))
   \<and> ''/ws/dist'' \<notin> set (visited (search_loop demo_env ''/ws'' (line_matches demo_env ''todo'') (search_start ''/ws'')))"
proof -
  let ?st = "search_loop demo_env ''/ws'' (line_matches demo_env ''todo'') (search_start ''/ws'')"
  have m: "''/ws/src/main.ts'' \<in> set (file_reads ?st)"
    by (simp add: demo_search)
  have d: "''/ws/dist'' \<notin> set (visited ?st)"
    by (simp add: demo_search)
  from m have u: "''/ws/src/main.ts'' \<in> set (queue ?st) \<union> set (visited ?st) \<union> set (file_reads ?st)"
    by (rule UnI2)
  from m bspec [OF searchText_skips_entries u] d show ?thesis
    by (intro conjI)
qed

section \<open>Properties of the decision parser\<close>

text \<open>
  Claim C6, as the claim states it, fails on the logging: a decoded object whose action
  is \<open>clarify\<close> but which has no string question falls back to \<open>proceed\<close> with the
  cleaned text as summary, and nothing is logged.
\<close>

theorem parse_counterexample:
  \<open>parseOrchestratorDecision (\<lambda>text. Inr (JObject [(''action'', JString ''clarify'')]))
     ''{"action":"clarify"}''
   = (\<lparr>action = proceed, decision_question = None, summary = Some ''{"action":"clarify"}'',
       reasoning = None\<rparr>, [])\<close>
  by (simp add: parseOrchestratorDecision_def sanitizeJson_def fence_def trim_def is_space_def
      property_def string_property_def)

text \<open>
  Claim C6, amended. \<open>parseOrchestratorDecision\<close> is a total function: it yields a
  decision on every text and throws nothing. When \<open>JSON.parse\<close> throws on the cleaned
  text, the decision is \<open>proceed\<close> with the cleaned text as summary, and one warning is
  logged. When \<open>JSON.parse\<close> succeeds and the action is neither \<open>proceed\<close> nor \<open>clarify\<close>
  with a string question, the decision is the same, and nothing is logged.
\<close>

theorem parseOrchestratorDecision_fallback:
  "(parse (sanitizeJson raw) = Inl err \<longrightarrow>
      parseOrchestratorDecision parse raw
        = (\<lparr>action = proceed, decision_question = None, summary = Some (sanitizeJson raw),
            reasoning = None\<rparr>,
           [''WARN: Unable to parse orchestrator decision, falling back to proceed. Raw output: ''
              @ sanitizeJson raw @ '' Error: '' @ err]))
   \<and> (parse' (sanitizeJson raw') = Inr parsed
        \<and> property parsed ''action'' \<noteq> Some (JString ''proceed'')
        \<and> (property parsed ''action'' \<noteq> Some (JString ''clarify'')
             \<or> string_property parsed ''question'' = None) \<longrightarrow>
      parseOrchestratorDecision parse' raw'
        = (\<lparr>action = proceed, decision_question = None, summary = Some (sanitizeJson raw'),
            reasoning = None\<rparr>, []))"
  by (auto simp: parseOrchestratorDecision_def Let_def)

theorem parseOrchestratorDecision_fallback_witness:
  "JSON_parse demo_provider (sanitizeJson (fence @ ''json'' @ [LF] @ ''go on'' @ [LF] @ fence))
     = Inl ''SyntaxError: Unexpected token''
   \<and> parseOrchestratorDecision (JSON_parse demo_provider)
        (fence @ ''json'' @ [LF] @ ''go on'' @ [LF] @ fence)
     = (\<lparr>action = proceed, decision_question = None, summary = Some ''go on'', reasoning = None\<rparr>,
        [''WARN: Unable to parse orchestrator decision, falling back to proceed. Raw output: go on Error: SyntaxError: Unexpected token''])
   \<and> property (JObject [(''action'', JString ''clarify''), (''question'', JNumber ''1'')]) ''action''
       = Some (JString ''clarify'')
   \<and> string_property (JObject [(''action'', JString ''clarify''), (''question'', JNumber ''1'')]) ''question''
       = None
   \<and> parseOrchestratorDecision
        (\<lambda>text. Inr (JObject [(''action'', JString ''clarify''), (''question'', JNumber ''1'')])) ''x''
     = (\<lparr>action = proceed, decision_question = None, summary = Some ''x'', reasoning = None\<rparr>, [])"
proof -
  have c: "sanitizeJson (fence @ ''json'' @ [LF] @ ''go on'' @ [LF] @ fence) = ''go on''"
    by (simp add: sanitizeJson_def fence_def trim_def is_space_def toLowerCase_def
        to_lower_char_def upper_case_letters_def lower_case_letters_def LF_def)
  have x: "sanitizeJson ''x'' = ''x''"
    by (simp add: sanitizeJson_def fence_def trim_def is_space_def)
  have p: "JSON_parse demo_provider ''go on'' = Inl ''SyntaxError: Unexpected token''"
    by (simp add: demo_provider_def demo_clarify_def demo_proceed_def)
  from c x p
    parseOrchestratorDecision_fallback [of "JSON_parse demo_provider"
      "fence @ ''json'' @ [LF] @ ''go on'' @ [LF] @ fence" "''SyntaxError: Unexpected token''"
      "\<lambda>text. Inr (JObject [(''action'', JString ''clarify''), (''question'', JNumber ''1'')])"
      "''x''" "JObject [(''action'', JString ''clarify''), (''question'', JNumber ''1'')]"]
  show ?thesis by (simp add: property_def string_property_def)
qed

section \<open>Properties of the session\<close>

lemma updates_first:
  "updates (planModeChat p userQuestion) \<noteq> []
   \<and> hd (updates (planModeChat p userQuestion)) = accept_input p (trim userQuestion)"
  by (auto simp: planModeChat_def run_plan_def chat_done_def Let_def
      split: sum.splits option.splits)

lemma accept_input_answer:
  assumes "planSession p = Some s" and "status s = awaiting_clarifications"
    and "pendingClarification s = Some pending" and "pending \<noteq> []"
  shows "accept_input p t =
     s\<lparr>clarifications := clarifications s @ [\<lparr>question = pending, answer = t\<rparr>],
       pendingClarification := None, status := orchestrating,
       orchestratorMessages := orchestratorMessages s @ [\<lparr>role = user, content = t\<rparr>]\<rparr>"
  using assms by (simp add: accept_input_def current_session_def truthy_def Let_def)

lemma demo_waiting_simps:
  "status demo_waiting = awaiting_clarifications"
  "pendingClarification demo_waiting = Some ''Which file?''"
  "clarifications demo_waiting = []"
  by (simp_all add: demo_waiting_def startPlanSession_def)

text \<open>
  Claim C8, as the claim states it, fails on the answer: the pair that is appended holds
  the input with the white space around it trimmed, not the input as submitted.
\<close>

theorem clarification_answer_counterexample:
  "clarifications (hd (updates (planModeChat (demo_provider\<lparr>planSession := Some demo_waiting\<rparr>) '' yes '')))
     = [\<lparr>question = ''Which file?'', answer = ''yes''\<rparr>]
   \<and> \<lparr>question = ''Which file?'', answer = ''yes''\<rparr> \<noteq> \<lparr>question = ''Which file?'', answer = '' yes ''\<rparr>"
proof -
  have "accept_input (demo_provider\<lparr>planSession := Some demo_waiting\<rparr>) (trim '' yes '')
      = demo_waiting\<lparr>clarifications := clarifications demo_waiting @ [\<lparr>question = ''Which file?'', answer = trim '' yes ''\<rparr>],
       pendingClarification := None, status := orchestrating,
       orchestratorMessages := orchestratorMessages demo_waiting @ [\<lparr>role = user, content = trim '' yes ''\<rparr>]\<rparr>"
    by (rule accept_input_answer) (simp_all add: demo_waiting_simps)
  with updates_first [of "demo_provider\<lparr>planSession := Some demo_waiting\<rparr>" "'' yes ''"]
  show ?thesis by (simp add: demo_waiting_simps trim_def is_space_def)
qed

text \<open>
  Claim C8, amended. For a session in the state \<open>awaiting_clarifications\<close> with a pending
  question that is not empty, the first session that \<open>planModeChat\<close> publishes, on any
  input, is in the state \<open>orchestrating\<close>, has no pending question, and its
  clarifications are the former ones followed by one pair: the question that was
  pending, and the input trimmed of the white space around it.
\<close>

theorem clarification_answer:
  assumes "planSession p = Some s" and "status s = awaiting_clarifications"
    and "pendingClarification s = Some pending" and "pending \<noteq> []"
  shows "updates (planModeChat p userQuestion) \<noteq> []
     \<and> status (hd (updates (planModeChat p userQuestion))) = orchestrating
     \<and> pendingClarification (hd (updates (planModeChat p userQuestion))) = None
     \<and> clarifications (hd (updates (planModeChat p userQuestion)))
         = clarifications s @ [\<lparr>question = pending, answer = trim userQuestion\<rparr>]"
  using updates_first [of p userQuestion] accept_input_answer [OF assms, of "trim userQuestion"]
  by simp

theorem clarification_answer_witness:
  "planSession (demo_provider\<lparr>planSession := Some demo_waiting\<rparr>) = Some demo_waiting
   \<and> status demo_waiting = awaiting_clarifications
   \<and> pendingClarification demo_waiting = Some ''Which file?''
   \<and> status (hd (updates (planModeChat (demo_provider\<lparr>planSession := Some demo_waiting\<rparr>) ''src/a.ts''))) = orchestrating
   \<and> pendingClarification (hd (updates (planModeChat (demo_provider\<lparr>planSession := Some demo_waiting\<rparr>) ''src/a.ts''))) = None
   \<and> clarifications (hd (updates (planModeChat (demo_provider\<lparr>planSession := Some demo_waiting\<rparr>) ''src/a.ts'')))
       = [\<lparr>question = ''Which file?'', answer = ''src/a.ts''\<rparr>]"
  using clarification_answer [of "demo_provider\<lparr>planSession := Some demo_waiting\<rparr>" demo_waiting
      "''Which file?''" "''src/a.ts''"]
  by (simp add: demo_waiting_simps trim_def is_space_def)

subsection \<open>The pending question and the state\<close>

lemma startPlanSession_fresh:
  "status (startPlanSession p t) = orchestrating" "pendingClarification (startPlanSession p t) = None"
  by (simp_all add: startPlanSession_def)

lemma accept_input_fresh:
  assumes "\<forall>s. planSession p = Some s \<longrightarrow> session_ok s"
  shows "status (accept_input p t) = orchestrating \<and> pendingClarification (accept_input p t) = None"
proof (cases "planSession p")
  case None
  then show ?thesis
    by (simp add: accept_input_def current_session_def truthy_def startPlanSession_fresh Let_def)
next
  case (Some s)
  with assms have "session_ok s" by simp
  with Some show ?thesis
    by (cases "pendingClarification s")
      (auto simp: accept_input_def current_session_def truthy_def startPlanSession_fresh
        session_ok_def Let_def)
qed

lemma plan_iteration_session:
  "status (run_session (plan_iteration e m st)) = status (run_session st)"
  "pendingClarification (run_session (plan_iteration e m st)) = pendingClarification (run_session st)"
  "published (plan_iteration e m st) = published st @ [run_session (plan_iteration e m st)]"
  by (simp_all add: plan_iteration_def Let_def split: prod.splits)

lemma plan_loop_sessions:
  assumes "\<forall>s \<in> set (published st). status s = c \<and> pendingClarification s = q"
    and "status (run_session st) = c" and "pendingClarification (run_session st) = q"
  shows "(\<forall>s \<in> set (published (plan_loop e b plan st)). status s = c \<and> pendingClarification s = q)
       \<and> status (run_session (plan_loop e b plan st)) = c
       \<and> pendingClarification (run_session (plan_loop e b plan st)) = q"
  using assms
proof (induction e b plan st rule: plan_loop.induct)
  case (1 e b plan st)
  show ?case
  proof (cases "exec_from b plan")
    case None
    with 1 show ?thesis by (subst (1 2 3) plan_loop.simps) simp
  next
    case (Some r)
    obtain m b' rest where r: "r = (m, b', rest)" by (cases r) auto
    have "(\<forall>s \<in> set (published (plan_loop e b' rest (plan_iteration e m st))).
              status s = c \<and> pendingClarification s = q)
       \<and> status (run_session (plan_loop e b' rest (plan_iteration e m st))) = c
       \<and> pendingClarification (run_session (plan_loop e b' rest (plan_iteration e m st))) = q"
      using Some r 1
      by (intro "1.IH") (auto simp: plan_iteration_session)
    with Some r show ?thesis by (subst (1 2 3) plan_loop.simps) simp
  qed
qed

lemma executePlanTools_sessions:
  "(\<forall>s \<in> set (published (executePlanTools e session)).
       status s = status session \<and> pendingClarification s = pendingClarification session)
   \<and> status (run_session (executePlanTools e session)) = status session
   \<and> pendingClarification (run_session (executePlanTools e session)) = pendingClarification session"
  unfolding executePlanTools_def by (rule plan_loop_sessions) simp_all

lemma run_plan_ok:
  assumes "pendingClarification s = None" and "status s \<noteq> awaiting_clarifications"
    and "\<forall>x \<in> set sent. session_ok x"
  shows "(\<forall>x \<in> set (updates (run_plan p s sent plan)). session_ok x)
       \<and> session_ok (final_session (run_plan p s sent plan))"
proof -
  let ?s2 = "s\<lparr>planMarkdown := Some plan, status := executing_tools\<rparr>"
  have e: "(\<forall>x \<in> set (published (executePlanTools p ?s2)).
       status x = executing_tools \<and> pendingClarification x = None)
   \<and> status (run_session (executePlanTools p ?s2)) = executing_tools
   \<and> pendingClarification (run_session (executePlanTools p ?s2)) = None"
    using executePlanTools_sessions [of p ?s2] assms by simp
  then have pub: "\<forall>x \<in> set (published (executePlanTools p ?s2)). session_ok x"
    by (simp add: session_ok_def)
  from e assms pub show ?thesis
    by (auto simp: run_plan_def Let_def chat_done_def session_ok_def persistPlanContent_def
        split: sum.splits)
qed

lemma planModeChat_ok:
  assumes "\<forall>s. planSession p = Some s \<longrightarrow> session_ok s"
  shows "(\<forall>x \<in> set (updates (planModeChat p userQuestion)). session_ok x)
       \<and> session_ok (final_session (planModeChat p userQuestion))"
proof -
  let ?s = "accept_input p (trim userQuestion)"
  from accept_input_fresh [OF assms, of "trim userQuestion"]
  have f: "status ?s = orchestrating" "pendingClarification ?s = None" by simp_all
  then have ok: "session_ok ?s" by (simp add: session_ok_def)
  have plan: "(\<forall>x \<in> set (updates (run_plan p (?s\<lparr>status := planning\<rparr>) [?s, ?s\<lparr>status := planning\<rparr>] plan)). session_ok x)
       \<and> session_ok (final_session (run_plan p (?s\<lparr>status := planning\<rparr>) [?s, ?s\<lparr>status := planning\<rparr>] plan))" for plan
    using f ok by (intro run_plan_ok) (simp_all add: session_ok_def)
  have asked: "session_ok (?s\<lparr>status := awaiting_clarifications, pendingClarification := Some a,
      orchestratorMessages := ms\<rparr>)" if "a \<noteq> []" for a ms
    using that by (simp add: session_ok_def)
  have planning_ok: "session_ok (?s\<lparr>status := planning\<rparr>)"
    using f by (simp add: session_ok_def)
  show ?thesis
    using ok plan asked planning_ok
    by (auto simp: planModeChat_def Let_def chat_done_def truthy_def
        split: sum.splits option.splits if_splits)
qed

lemma chat_sessions_ok:
  "\<forall>s. held = Some s \<longrightarrow> session_ok s \<Longrightarrow> \<forall>x \<in> set (chat_sessions held calls). session_ok x"
proof (induction calls arbitrary: held)
  case Nil
  then show ?case by simp
next
  case (Cons c calls)
  obtain p q where c: "c = (p, q)" by (cases c) auto
  let ?r = "planModeChat (p\<lparr>planSession := held\<rparr>) q"
  have r: "(\<forall>x \<in> set (updates ?r). session_ok x) \<and> session_ok (final_session ?r)"
    using Cons.prems by (intro planModeChat_ok) simp
  then have "\<forall>x \<in> set (chat_sessions (Some (final_session ?r)) calls). session_ok x"
    by (intro Cons.IH) simp
  with r c show ?case by (auto simp: Let_def)
qed

lemma demo_first_call:
  "map (\<lambda>s. (status s, pendingClarification s)) (chat_sessions None [(demo_provider, ''fix it'')])
   = [(orchestrating, None), (awaiting_clarifications, Some ''Which file?''),
      (awaiting_clarifications, Some ''Which file?'')]"
  by (simp add: planModeChat_def accept_input_def current_session_def startPlanSession_def
      truthy_def Let_def demo_provider_def runModel_def demo_clarify_def demo_proceed_def
      parseOrchestratorDecision_def sanitizeJson_def fence_def trim_def is_space_def
      property_def string_property_def chat_done_def toLowerCase_def)

text \<open>
  Claim C7. In any series of calls of \<open>planModeChat\<close> on a provider that holds no session
  at first, every session that is published, and every session a call ends with, has a
  pending question exactly when its state is \<open>awaiting_clarifications\<close>.
\<close>

theorem pendingClarification_invariant:
  "\<forall>s \<in> set (chat_sessions None calls).
     (pendingClarification s \<noteq> None) = (status s = awaiting_clarifications)"
  using chat_sessions_ok [of None calls] by (simp add: session_ok_def)

theorem pendingClarification_invariant_witness:
  "map (\<lambda>s. (status s, pendingClarification s)) (chat_sessions None [(demo_provider, ''fix it'')])
     = [(orchestrating, None), (awaiting_clarifications, Some ''Which file?''),
        (awaiting_clarifications, Some ''Which file?'')]
   \<and> chat_sessions None [(demo_provider, ''fix it'')] ! 1
       \<in> set (chat_sessions None [(demo_provider, ''fix it'')])
   \<and> (pendingClarification (chat_sessions None [(demo_provider, ''fix it'')] ! 1) \<noteq> None)
       = (status (chat_sessions None [(demo_provider, ''fix it'')] ! 1) = awaiting_clarifications)"
proof -
  have "length (map (\<lambda>s. (status s, pendingClarification s))
          (chat_sessions None [(demo_provider, ''fix it'')])) = 3"
    unfolding demo_first_call by simp
  then have len: "length (chat_sessions None [(demo_provider, ''fix it'')]) = 3"
    unfolding length_map .
  have m: "chat_sessions None [(demo_provider, ''fix it'')] ! 1
       \<in> set (chat_sessions None [(demo_provider, ''fix it'')])"
    using len by (intro nth_mem) (simp del: chat_sessions.simps)
  from bspec [OF pendingClarification_invariant m] demo_first_call m
  show ?thesis by (intro conjI)
qed

section \<open>Properties of the plan execution\<close>

lemma plan_loop_fold:
  "plan_loop e b plan st = fold (plan_iteration e) (plan_matches b plan) st"
proof (induction e b plan st rule: plan_loop.induct)
  case (1 e b plan st)
  show ?case
  proof (cases "exec_from b plan")
    case None
    then show ?thesis
      by (subst plan_loop.simps, subst plan_matches.simps) simp
  next
    case (Some r)
    obtain m b' rest where r: "r = (m, b', rest)" by (cases r) auto
    with Some 1 have "plan_loop e b' rest (plan_iteration e m st)
        = fold (plan_iteration e) (plan_matches b' rest) (plan_iteration e m st)"
      by simp
    with Some r show ?thesis
      by (subst plan_loop.simps, subst plan_matches.simps) simp
  qed
qed

lemma plan_iteration_fields:
  "executions (plan_iteration e m st) = executions st @ [fst (execute_step e (variables st) m)]"
  "variables (plan_iteration e m st) = snd (execute_step e (variables st) m)"
  by (simp_all add: plan_iteration_def Let_def split: prod.splits)

lemma fold_plan_iteration:
  "executions (fold (plan_iteration e) ms st) = executions st @ step_executions e (variables st) ms"
  by (induction ms arbitrary: st) (simp_all add: plan_iteration_fields)

lemma executePlanTools_executions:
  "executions (executePlanTools e session)
   = step_executions e Map.empty (plan_matches True (or_else (planMarkdown session) []))"
  by (simp add: executePlanTools_def plan_loop_fold fold_plan_iteration)

lemma execute_step_fields:
  "exec_id (fst (execute_step e table m)) = ''#E'' @ step_id m"
  "tool (fst (execute_step e table m)) = trim (step_tool m)"
  "argument (fst (execute_step e table m)) = trim (resolve_refs table (step_argument m))"
  by (simp_all add: execute_step_def Let_def split: sum.splits)

lemma execute_step_table:
  "snd (execute_step e table m)
   = (if error (fst (execute_step e table m)) = None
      then table(step_id m \<mapsto> exec_output (fst (execute_step e table m)))
      else table)"
  by (simp add: execute_step_def Let_def split: sum.splits)

lemma execute_step_record: "step_record e m (fst (execute_step e table m))"
  by (simp add: step_record_def execute_step_def Let_def tool_outcome_def split: sum.splits)

lemma step_executions_records: "list_all2 (step_record e) ms (step_executions e table ms)"
  by (induction ms arbitrary: table) (simp_all add: execute_step_record)

lemma readFile_failures:
  "resolveWorkspacePath e a = Inr (Some r) \<Longrightarrow> r \<noteq> [] \<Longrightarrow> map_of (fs_nodes e) r = Some (Directory d)
     \<Longrightarrow> readFile e a = Inr ''ReadFile error: target is a directory.''"
  "resolveWorkspacePath e a = Inr None \<Longrightarrow> readFile e a = Inr ''Unable to resolve path for ReadFile.''"
  "resolveWorkspacePath e a = Inr (Some r) \<Longrightarrow> r \<noteq> [] \<Longrightarrow> map_of (fs_nodes e) r = None
     \<Longrightarrow> readFile e a = Inr (''ReadFile error: '' @ io_error e ''stat'' r)"
  "resolveWorkspacePath e a = Inr (Some r) \<Longrightarrow> r \<noteq> [] \<Longrightarrow> map_of (fs_nodes e) r = Some (RegularFile n (Inl msg))
     \<Longrightarrow> readFile e a = Inr (''ReadFile error: '' @ msg)"
  "resolveWorkspacePath e a = Inl thrown \<Longrightarrow> readFile e a = Inl thrown"
  by (simp_all add: readFile_def truthy_def fs_stat_def fs_readFile_def)

lemma tool_failures:
  "resolveWorkspacePath e (or_else (Some a) ''.'') = Inr None
     \<Longrightarrow> listFiles e a = Inr ''Workspace folder is not available for ListFiles.''"
  "search_args a = (pattern, rawPath) \<Longrightarrow> pattern \<noteq> [] \<Longrightarrow>
   resolveWorkspacePath e (or_else rawPath ''.'') = Inr None
     \<Longrightarrow> searchText e a = Inr ''Unable to resolve search path inside the workspace.''"
  by (simp_all add: listFiles_def searchText_def truthy_def)

lemma resolve_refs_Nil: "resolve_refs table [] = []"
  by (subst resolve_refs.simps) simp

lemma resolve_refs_plain:
  "ref_at (c # cs) = None \<Longrightarrow> resolve_refs table (c # cs) = c # resolve_refs table cs"
  by (subst resolve_refs.simps) simp

lemma resolve_refs_ref:
  "ref_at (c # cs) = Some (k, rest) \<Longrightarrow>
   resolve_refs table (c # cs)
     = (case table k of Some v \<Rightarrow> v | None \<Rightarrow> ''#E'' @ k) @ resolve_refs table rest"
  by (subst resolve_refs.simps) simp

lemma resolve_refs_eval:
  "ref_at (c # cs) \<noteq> None \<Longrightarrow>
   resolve_refs table (c # cs)
     = (case table (fst (the (ref_at (c # cs)))) of
          Some v \<Rightarrow> v
        | None \<Rightarrow> ''#E'' @ fst (the (ref_at (c # cs))))
       @ resolve_refs table (snd (the (ref_at (c # cs))))"
proof -
  assume "ref_at (c # cs) \<noteq> None"
  then obtain k rest where r: "ref_at (c # cs) = Some (k, rest)"
    by (cases "ref_at (c # cs)") auto
  show ?thesis unfolding resolve_refs_ref [OF r] r by (cases "table k") simp_all
qed

lemma demo_matches:
  "plan_matches True demo_plan
   = [\<lparr>step_id = ''1'', step_tool = ''ReadFile'', step_argument = ''notes.md''\<rparr>,
      \<lparr>step_id = ''3'', step_tool = ''SearchText'', step_argument = ''#E1 | #E9''\<rparr>,
      \<lparr>step_id = ''2'', step_tool = ''DeleteFile'', step_argument = ''tmp''\<rparr>,
      \<lparr>step_id = ''4'', step_tool = ''ReadFile'', step_argument = ''src''\<rparr>,
      \<lparr>step_id = ''5'', step_tool = ''ListFiles'', step_argument = ''#E2''\<rparr>]"
  by code_simp

lemma ref_at_append:
  assumes "ref_at pre = None" and "pre \<noteq> []"
  shows "ref_at (pre @ CHR ''#'' # r) = None"
proof (cases pre)
  case Nil
  with assms show ?thesis by simp
next
  case (Cons c pre')
  show ?thesis
  proof (cases pre')
    case Nil
    with Cons show ?thesis by (simp add: ref_at_def)
  next
    case (Cons d pre'')
    show ?thesis
    proof (cases "c = CHR ''#'' \<and> d = CHR ''E''")
      case False
      with \<open>pre = c # pre'\<close> Cons show ?thesis by (auto simp: ref_at_def)
    next
      case True
      with assms \<open>pre = c # pre'\<close> Cons have t: "takeWhile is_digit pre'' = []"
        by (simp add: ref_at_def split: if_splits)
      have "takeWhile is_digit (pre'' @ CHR ''#'' # r) = []"
      proof (cases pre'')
        case Nil
        then show ?thesis by (simp add: is_digit_def)
      next
        case (Cons x xs)
        with t show ?thesis by (simp split: if_splits)
      qed
      with \<open>pre = c # pre'\<close> Cons show ?thesis by (simp add: ref_at_def)
    qed
  qed
qed

lemma ref_at_token:
  assumes "k \<noteq> []" and "list_all is_digit k" and "post = [] \<or> \<not> is_digit (hd post)"
  shows "ref_at (''#E'' @ k @ post) = Some (k, post)"
proof -
  have "takeWhile is_digit (k @ post) = k \<and> dropWhile is_digit (k @ post) = post"
    using assms(2,3)
    by (cases post) (auto simp: list_all_iff)
  with assms(1) show ?thesis by (simp add: ref_at_def)
qed

lemma resolve_refs_token:
  assumes "\<not> has_ref pre" and "k \<noteq> []" and "list_all is_digit k"
    and "post = [] \<or> \<not> is_digit (hd post)"
  shows "resolve_refs table (pre @ ''#E'' @ k @ post)
     = pre @ (case table k of Some v \<Rightarrow> v | None \<Rightarrow> ''#E'' @ k) @ resolve_refs table post"
  using assms(1)
proof (induction pre)
  case Nil
  from ref_at_token [OF assms(2-4)] have "ref_at (CHR ''#'' # CHR ''E'' # k @ post) = Some (k, post)"
    by simp
  from resolve_refs_ref [OF this] show ?case by simp
next
  case (Cons c pre)
  then have n: "ref_at (c # pre) = None" and h: "\<not> has_ref pre"
    by (simp_all split: option.splits)
  from ref_at_append [OF n] have "ref_at (c # pre @ ''#E'' @ k @ post) = None" by simp
  from resolve_refs_plain [OF this] Cons.IH [OF h] show ?case by simp
qed

lemma resolve_refs_no_ref: "\<not> has_ref s \<Longrightarrow> resolve_refs table s = s"
  by (induction s) (simp_all add: resolve_refs_Nil resolve_refs_plain split: option.splits)

lemma step_executions_length: "length (step_executions e table ms) = length ms"
  by (induction ms arbitrary: table) simp_all

lemma step_executions_argument:
  "i < length ms \<Longrightarrow>
   argument (step_executions e table ms ! i)
     = trim (resolve_refs (outputs_of (take i (zip ms (step_executions e table ms))) table)
         (step_argument (ms ! i)))"
proof (induction ms arbitrary: table i)
  case Nil
  then show ?case by simp
next
  case (Cons m ms)
  show ?case
  proof (cases i)
    case 0
    then show ?thesis by (simp add: execute_step_fields)
  next
    case (Suc j)
    with Cons.prems have "j < length ms" by simp
    from Cons.IH [OF this, of "snd (execute_step e table m)"] Suc
    show ?thesis by (simp add: execute_step_table [symmetric])
  qed
qed

subsection \<open>The example plan\<close>

lemmas eval_simps = demo_simps resolve_refs_Nil resolve_refs_plain resolve_refs_eval ref_at_def is_digit_def
  execute_step_def readFile_def listFiles_def searchText_def search_report_def search_args_def
  fs_readFile_def fs_readdir_def search_loop_continue search_loop_stop truncateOutput_def MAX_TOOL_OUTPUT_def

lemma demo_step_executions:
  "step_executions demo_env Map.empty
     [\<lparr>step_id = ''1'', step_tool = ''ReadFile'', step_argument = ''notes.md''\<rparr>,
      \<lparr>step_id = ''3'', step_tool = ''SearchText'', step_argument = ''#E1 | #E9''\<rparr>,
      \<lparr>step_id = ''2'', step_tool = ''DeleteFile'', step_argument = ''tmp''\<rparr>,
      \<lparr>step_id = ''4'', step_tool = ''ReadFile'', step_argument = ''src''\<rparr>,
      \<lparr>step_id = ''5'', step_tool = ''ListFiles'', step_argument = ''#E2''\<rparr>]
   = [\<lparr>exec_id = ''#E1'', tool = ''ReadFile'', argument = ''notes.md'',
       exec_output = ''see #E1'', error = None\<rparr>,
      \<lparr>exec_id = ''#E3'', tool = ''SearchText'', argument = ''see #E1 | #E9'',
       exec_output = ''No results from SearchText.'', error = None\<rparr>,
      \<lparr>exec_id = ''#E2'', tool = ''DeleteFile'', argument = ''tmp'',
       exec_output = [], error = Some ''Unsupported tool: DeleteFile''\<rparr>,
      \<lparr>exec_id = ''#E4'', tool = ''ReadFile'', argument = ''src'',
       exec_output = ''ReadFile error: target is a directory.'', error = None\<rparr>,
      \<lparr>exec_id = ''#E5'', tool = ''ListFiles'', argument = ''#E2'',
       exec_output = ''ListFiles error: ENOENT: /ws/#E2'', error = None\<rparr>]"
  by (simp add: eval_simps)

lemma demo_executions:
  "executions (executePlanTools demo_env demo_session)
   = [\<lparr>exec_id = ''#E1'', tool = ''ReadFile'', argument = ''notes.md'',
       exec_output = ''see #E1'', error = None\<rparr>,
      \<lparr>exec_id = ''#E3'', tool = ''SearchText'', argument = ''see #E1 | #E9'',
       exec_output = ''No results from SearchText.'', error = None\<rparr>,
      \<lparr>exec_id = ''#E2'', tool = ''DeleteFile'', argument = ''tmp'',
       exec_output = [], error = Some ''Unsupported tool: DeleteFile''\<rparr>,
      \<lparr>exec_id = ''#E4'', tool = ''ReadFile'', argument = ''src'',
       exec_output = ''ReadFile error: target is a directory.'', error = None\<rparr>,
      \<lparr>exec_id = ''#E5'', tool = ''ListFiles'', argument = ''#E2'',
       exec_output = ''ListFiles error: ENOENT: /ws/#E2'', error = None\<rparr>]"
proof -
  have "or_else (planMarkdown demo_session) [] = demo_plan"
    by (simp add: demo_session_def or_else_def truthy_def demo_plan_def)
  then show ?thesis
    by (simp only: executePlanTools_executions demo_matches demo_step_executions)
qed

subsection \<open>Errors of the steps\<close>

text \<open>
  Claim C5, as the claim states it, fails for the failures that the tools find
  themselves: a directory given to \<open>ReadFile\<close> (and likewise an I/O failure or a missing
  workspace root) is reported in the text the tool returns, which becomes the \<open>output\<close>
  of the step, and \<open>error\<close> stays unset.
\<close>

theorem step_errors_counterexample:
  "map_of (fs_nodes demo_env) ''/ws/src'' = Some (Directory (Inr [(''main.ts'', False)]))
   \<and> executions (executePlanTools demo_env demo_session) ! 3
     = \<lparr>exec_id = ''#E4'', tool = ''ReadFile'', argument = ''src'',
        exec_output = ''ReadFile error: target is a directory.'', error = None\<rparr>"
  by (simp add: demo_executions) (simp add: demo_env_def demo_nodes_def)

text \<open>
  Claim C5, amended. The pass makes one execution record for every match of the step
  pattern, in order, whatever happened to the steps before. A tool name outside
  \<open>listfiles\<close>, \<open>readfile\<close>, \<open>searchtext\<close> (compared in lower case) gives the error
  \<open>Unsupported tool: <name>\<close> and an empty output. For a supported tool \<open>error\<close> is set
  only when the call throws, to the message thrown; otherwise the text the tool returns
  is the output, and that text is the failure description when the target of
  \<open>ReadFile\<close> is a directory or cannot be read, or when no workspace root is available.
\<close>

theorem step_errors:
  "list_all2 (step_record e) (plan_matches True (or_else (planMarkdown session) []))
     (executions (executePlanTools e session))
   \<and> (resolveWorkspacePath e a = Inr (Some r) \<and> r \<noteq> []
        \<and> map_of (fs_nodes e) r = Some (Directory d) \<longrightarrow>
        readFile e a = Inr ''ReadFile error: target is a directory.'')
   \<and> (resolveWorkspacePath e b = Inr (Some r') \<and> r' \<noteq> [] \<and> map_of (fs_nodes e) r' = None \<longrightarrow>
        readFile e b = Inr (''ReadFile error: '' @ io_error e ''stat'' r'))
   \<and> (resolveWorkspacePath e' c = Inr None \<longrightarrow>
        readFile e' c = Inr ''Unable to resolve path for ReadFile.'')
   \<and> (resolveWorkspacePath e' (or_else (Some c) ''.'') = Inr None \<longrightarrow>
        listFiles e' c = Inr ''Workspace folder is not available for ListFiles.'')"
  using readFile_failures(1) [of e a r d] readFile_failures(3) [of e b r']
    readFile_failures(2) [of e' c] tool_failures(1) [of e' c]
  by (simp add: executePlanTools_executions step_executions_records)

theorem step_errors_witness:
  "list_all2 (step_record demo_env) (plan_matches True demo_plan)
     (executions (executePlanTools demo_env demo_session))
   \<and> map (\<lambda>x. (tool x, error x)) (executions (executePlanTools demo_env demo_session))
       = [(''ReadFile'', None), (''SearchText'', None),
          (''DeleteFile'', Some ''Unsupported tool: DeleteFile''),
          (''ReadFile'', None), (''ListFiles'', None)]
   \<and> resolveWorkspacePath demo_env ''src'' = Inr (Some ''/ws/src'')
   \<and> map_of (fs_nodes demo_env) ''/ws/src'' = Some (Directory (Inr [(''main.ts'', False)]))
   \<and> readFile demo_env ''src'' = Inr ''ReadFile error: target is a directory.''
   \<and> map_of (fs_nodes demo_env) ''/ws/gone'' = None
   \<and> readFile demo_env ''gone'' = Inr ''ReadFile error: ENOENT: /ws/gone''
   \<and> readFile (demo_env\<lparr>resolveWorkspacePath := \<lambda>p. Inr None\<rparr>) ''src''
       = Inr ''Unable to resolve path for ReadFile.''
   \<and> listFiles (demo_env\<lparr>resolveWorkspacePath := \<lambda>p. Inr None\<rparr>) ''src''
       = Inr ''Workspace folder is not available for ListFiles.''"
proof -
  have p: "or_else (planMarkdown demo_session) [] = demo_plan"
    by (simp add: demo_session_def or_else_def truthy_def demo_plan_def)
  have f: "resolveWorkspacePath demo_env ''src'' = Inr (Some ''/ws/src'')"
    "resolveWorkspacePath demo_env ''gone'' = Inr (Some ''/ws/gone'')"
    "map_of (fs_nodes demo_env) ''/ws/src'' = Some (Directory (Inr [(''main.ts'', False)]))"
    "map_of (fs_nodes demo_env) ''/ws/gone'' = None"
    "io_error demo_env ''stat'' ''/ws/gone'' = ''ENOENT: /ws/gone''"
    by (simp_all add: demo_env_def demo_nodes_def)
  from p f
    step_errors [of demo_env demo_session "''src''" "''/ws/src''" "Inr [(''main.ts'', False)]"
      "''gone''" "''/ws/gone''" "demo_env\<lparr>resolveWorkspacePath := \<lambda>p. Inr None\<rparr>" "''src''"]
  show ?thesis by (simp add: demo_executions)
qed

subsection \<open>References to earlier steps\<close>

text \<open>
  Claim C1, as the claim states it, fails where an output that is substituted holds a
  reference itself: the first step of the example plan succeeds with the output
  \<open>see #E1\<close>, and the resolved argument of the next step, which refers to it, holds the
  literal \<open>#E1\<close>.
\<close>

theorem reference_counterexample:
  "exec_id (executions (executePlanTools demo_env demo_session) ! 0) = ''#E1''
   \<and> error (executions (executePlanTools demo_env demo_session) ! 0) = None
   \<and> step_argument (plan_matches True demo_plan ! 1) = ''#E1 | #E9''
   \<and> argument (executions (executePlanTools demo_env demo_session) ! 1) = ''see #E1 | #E9''
   \<and> has_ref (argument (executions (executePlanTools demo_env demo_session) ! 1))
   \<and> str_includes (argument (executions (executePlanTools demo_env demo_session) ! 1)) ''#E1''"
  by (simp add: demo_executions demo_matches ref_at_def is_digit_def)

text \<open>
  Claim C1, amended. The argument of a step is its raw argument with the references
  resolved on the table of the pass, then trimmed; the table holds, under the digits of
  a step, the output of the latest earlier step of the pass with these digits that
  ended without an error. A reference \<open>#E<k>\<close> (with all the digits that follow) is
  replaced by the output stored for \<open>k\<close>, and stays as it is when nothing is stored for
  \<open>k\<close>: a forward reference, or a reference to a step that ended with an error. The
  text before the first reference is kept, the text after it is resolved in the same
  way, and what has been substituted is not read again.
\<close>

theorem reference_resolution:
  "(\<forall>i < length (plan_matches True (or_else (planMarkdown session) [])).
      argument (executions (executePlanTools e session) ! i)
        = trim (resolve_refs
            (outputs_of (take i (zip (plan_matches True (or_else (planMarkdown session) []))
                                     (executions (executePlanTools e session)))) Map.empty)
            (step_argument (plan_matches True (or_else (planMarkdown session) []) ! i))))
   \<and> (\<not> has_ref pre \<and> k \<noteq> [] \<and> list_all is_digit k \<and> (post = [] \<or> \<not> is_digit (hd post)) \<longrightarrow>
        resolve_refs table (pre @ ''#E'' @ k @ post)
          = pre @ (case table k of Some v \<Rightarrow> v | None \<Rightarrow> ''#E'' @ k) @ resolve_refs table post)
   \<and> (\<not> has_ref s \<longrightarrow> resolve_refs table s = s)"
  using resolve_refs_token [of pre k post table]
  by (simp add: executePlanTools_executions step_executions_argument resolve_refs_no_ref)

theorem reference_resolution_witness:
  "(1 :: nat) < length (plan_matches True (or_else (planMarkdown demo_session) []))
   \<and> argument (executions (executePlanTools demo_env demo_session) ! 1)
       = trim (resolve_refs
            (outputs_of (take 1 (zip (plan_matches True (or_else (planMarkdown demo_session) []))
                                     (executions (executePlanTools demo_env demo_session)))) Map.empty)
            (step_argument (plan_matches True (or_else (planMarkdown demo_session) []) ! 1)))
   \<and> argument (executions (executePlanTools demo_env demo_session) ! 1) = ''see #E1 | #E9''
   \<and> \<not> has_ref ''a ''
   \<and> resolve_refs [''1'' \<mapsto> ''out''] (''a '' @ ''#E'' @ ''1'' @ '' b'') = ''a out b''
   \<and> resolve_refs Map.empty (''a '' @ ''#E'' @ ''1'' @ '' b'') = ''a #E1 b''"
proof -
  have p: "or_else (planMarkdown demo_session) [] = demo_plan"
    by (simp add: demo_session_def or_else_def truthy_def demo_plan_def)
  have l: "(1 :: nat) < length (plan_matches True (or_else (planMarkdown demo_session) []))"
    by (simp add: p demo_matches)
  have h: "\<not> has_ref ''a ''" "\<not> has_ref '' b''"
    by (simp_all add: ref_at_def)
  note r = reference_resolution [of demo_session demo_env "''a ''" "''1''" "'' b''" _ "'' b''"]
  from r [of Map.empty] l
  have a: "argument (executions (executePlanTools demo_env demo_session) ! 1)
       = trim (resolve_refs
            (outputs_of (take 1 (zip (plan_matches True (or_else (planMarkdown demo_session) []))
                                     (executions (executePlanTools demo_env demo_session)))) Map.empty)
            (step_argument (plan_matches True (or_else (planMarkdown demo_session) []) ! 1)))"
    by blast
  have b: "argument (executions (executePlanTools demo_env demo_session) ! 1) = ''see #E1 | #E9''"
    by (simp add: demo_executions)
  from h r [of "[''1'' \<mapsto> ''out'']"]
  have c: "resolve_refs [''1'' \<mapsto> ''out''] (''a '' @ ''#E'' @ ''1'' @ '' b'') = ''a out b''"
    by (simp add: is_digit_def)
  from h r [of Map.empty]
  have d: "resolve_refs Map.empty (''a '' @ ''#E'' @ ''1'' @ '' b'') = ''a #E1 b''"
    by (simp add: is_digit_def)
  from l a b h(1) c d show ?thesis by (intro conjI)
qed

section \<open>Properties of the plan grammar\<close>

lemma lt_space: "is_line_terminator c \<Longrightarrow> is_space c"
  by (auto simp: is_line_terminator_def is_space_def)

lemma lt_not_digit: "is_line_terminator c \<Longrightarrow> \<not> is_digit c"
  by (auto simp: is_line_terminator_def is_digit_def)

lemma lt_not_word: "is_line_terminator c \<Longrightarrow> \<not> is_word_char c"
  by (auto simp: is_line_terminator_def is_word_char_def)

lemma lt_not_special:
  "is_line_terminator c \<Longrightarrow> c \<noteq> CHR ''#'' \<and> c \<noteq> CHR ''E'' \<and> c \<noteq> CHR ''='' \<and> c \<noteq> CHR ''['' \<and> c \<noteq> CHR '']''"
  by (auto simp: is_line_terminator_def)

lemma space_not_hash: "is_space c \<Longrightarrow> c \<noteq> CHR ''#''"
  by (auto simp: is_space_def)


lemma spaces_then_end_None:
  "(\<forall>k \<le> K. \<not> at_line_end (drop k s)) \<Longrightarrow> spaces_then_end K s = None"
  by (induction K) auto

lemma spaces_then_end_Some:
  "spaces_then_end K s = Some (b, rest) \<Longrightarrow> \<exists>k \<le> K. rest = drop k s \<and> at_line_end rest"
proof (induction K)
  case 0
  then show ?case by (auto split: if_splits)
next
  case (Suc K)
  show ?case
  proof (cases "at_line_end (drop (Suc K) s)")
    case True
    with Suc.prems show ?thesis by auto
  next
    case False
    with Suc.prems have "spaces_then_end K s = Some (b, rest)" by simp
    from Suc.IH [OF this] show ?thesis by (auto intro: le_SucI)
  qed
qed

lemma spaces_then_end_found:
  "k \<le> K \<Longrightarrow> at_line_end (drop k s) \<Longrightarrow> spaces_then_end K s \<noteq> None"
proof (induction K)
  case 0
  then show ?case by simp
next
  case (Suc K)
  then show ?case by (cases "k = Suc K") auto
qed

lemma line_text_drop_not_end:
  "line_text l \<Longrightarrow> k < length l \<Longrightarrow> \<not> at_line_end (drop k l @ r)"
proof -
  assume l: "line_text l" and k: "k < length l"
  then obtain c cs where d: "drop k l = c # cs" by (cases "drop k l") auto
  then have "c \<in> set l" by (metis in_set_dropD list.set_intros(1))
  with l d show ?thesis by (simp add: at_line_end_def line_text_def)
qed

lemma takeWhile_shorter: "\<not> (\<forall>c \<in> set xs. P c) \<Longrightarrow> length (takeWhile P xs) < length xs"
  by (induction xs) auto

lemma take_takeWhile_prefix:
  assumes "n \<le> length (takeWhile P xs)"
  shows "take n xs = take n (takeWhile P xs)"
proof -
  have "take n xs = take n (takeWhile P xs @ dropWhile P xs)" by simp
  also have "\<dots> = take n (takeWhile P xs)" using assms by (simp del: takeWhile_dropWhile_id)
  finally show ?thesis .
qed

lemma spaces_tail_alone:
  assumes "line_text rr"
  shows "spaces_then_end (length (takeWhile is_space rr)) rr
     = (if \<forall>c \<in> set rr. is_space c then Some (False, []) else None)"
proof (cases "\<forall>c \<in> set rr. is_space c")
  case True
  then have t: "takeWhile is_space rr = rr" by simp
  show ?thesis
  proof (cases rr rule: rev_cases)
    case Nil
    then show ?thesis by (simp add: at_line_end_def)
  next
    case (snoc xs x)
    with assms have "\<not> is_line_terminator x" by (simp add: line_text_def)
    with snoc True t show ?thesis by (simp add: at_line_end_def nth_append)
  qed
next
  case False
  then have "length (takeWhile is_space rr) < length rr"
    by (rule takeWhile_shorter)
  then have "\<forall>k \<le> length (takeWhile is_space rr). \<not> at_line_end (drop k rr)"
    using line_text_drop_not_end [OF assms, of _ "[]"] by auto
  with False show ?thesis by (simp add: spaces_then_end_None)
qed

lemma spaces_tail_more:
  assumes "line_text rr" and "at_line_end r"
  shows "if \<forall>c \<in> set rr. is_space c
         then \<exists>b w r'. spaces_then_end (length (takeWhile is_space (rr @ r))) (rr @ r) = Some (b, r')
                \<and> r = w @ r' \<and> (\<forall>c \<in> set w. is_space c) \<and> at_line_end r'
         else spaces_then_end (length (takeWhile is_space (rr @ r))) (rr @ r) = None"
proof (cases "\<forall>c \<in> set rr. is_space c")
  case True
  let ?K = "length (takeWhile is_space (rr @ r))"
  from True have t: "takeWhile is_space (rr @ r) = rr @ takeWhile is_space r"
    by simp
  then have "length rr \<le> ?K" by simp
  moreover have "at_line_end (drop (length rr) (rr @ r))"
    using assms(2) by simp
  ultimately have "spaces_then_end ?K (rr @ r) \<noteq> None" by (rule spaces_then_end_found)
  then obtain b r' where s: "spaces_then_end ?K (rr @ r) = Some (b, r')" by auto
  from spaces_then_end_Some [OF this] obtain k where k: "k \<le> ?K" "r' = drop k (rr @ r)" "at_line_end r'"
    by auto
  have "length rr \<le> k"
  proof (rule ccontr)
    assume "\<not> length rr \<le> k"
    then have "k < length rr" by simp
    from line_text_drop_not_end [OF assms(1) this, of r] k this show False by simp
  qed
  with k have r': "r' = drop (k - length rr) r" by simp
  have "take (k - length rr) r = take (k - length rr) (takeWhile is_space r)"
  proof -
    have "k - length rr \<le> length (takeWhile is_space r)" using k(1) t by simp
    then show ?thesis by (rule take_takeWhile_prefix)
  qed
  then have w: "\<forall>c \<in> set (take (k - length rr) r). is_space c"
    by (metis in_set_takeD set_takeWhileD)
  have "r = take (k - length rr) r @ r'" using r' by simp
  with s w k(3) True show ?thesis
    by auto
next
  case False
  then obtain x where x: "x \<in> set rr" "\<not> is_space x" by auto
  then have t: "takeWhile is_space (rr @ r) = takeWhile is_space rr"
    by (rule takeWhile_append1)
  from False have "length (takeWhile is_space rr) < length rr"
    by (rule takeWhile_shorter)
  then have "\<forall>k \<le> length (takeWhile is_space rr). \<not> at_line_end (drop k (rr @ r))"
    using line_text_drop_not_end [OF assms(1), of _ r] by auto
  with False t show ?thesis by (simp add: spaces_then_end_None)
qed


lemma carried_None [simp]: "carried r None longer = (longer = None)"
  by (simp add: carried_def)

lemma carried_SomeD:
  "carried r (Some (x, b, rest)) longer \<Longrightarrow>
   rest = [] \<and> (\<exists>b' w r'. longer = Some (x, b', r') \<and> r = w @ r' \<and> (\<forall>c \<in> set w. is_space c) \<and> at_line_end r')"
  by (simp add: carried_def)

lemma carried_map_option:
  "carried r alone longer \<Longrightarrow>
   carried r (map_option (\<lambda>(x, b, rest). (f x, b, rest)) alone)
             (map_option (\<lambda>(x, b, rest). (f x, b, rest)) longer)"
  by (cases alone) (auto simp: carried_def)

lemma line_text_drop: "line_text l \<Longrightarrow> line_text (drop k l)"
  by (auto simp: line_text_def dest: in_set_dropD)

lemma line_text_Cons: "line_text (c # l) = (\<not> is_line_terminator c \<and> line_text l)"
  by (simp add: line_text_def)

lemma at_line_end_not_bracket: "at_line_end r \<Longrightarrow> bracket_here 0 r = None"
  by (cases r) (auto simp: bracket_here_def at_line_end_def dest: lt_not_special)

lemma bracket_here_extends:
  assumes l: "line_text s3" and r: "at_line_end r" and k: "k \<le> length s3"
  shows "carried r (bracket_here k s3) (bracket_here k (s3 @ r))"
proof (cases "drop k s3")
  case Nil
  with k have "k = length s3" by simp
  with Nil r show ?thesis
    by (cases r) (auto simp: bracket_here_def at_line_end_def dest: lt_not_special)
next
  case (Cons c rr)
  then have kl: "k < length s3" by (cases "k < length s3") auto
  then have d: "drop k (s3 @ r) = c # rr @ r" and t: "take k (s3 @ r) = take k s3"
    using Cons by simp_all
  have lr: "line_text rr" using line_text_drop [OF l, of k] Cons by (simp add: line_text_Cons)
  show ?thesis
  proof (cases "c = CHR '']''")
    case False
    with Cons d show ?thesis by (simp add: bracket_here_def)
  next
    case True
    show ?thesis
    proof (cases "\<forall>x \<in> set rr. is_space x")
      case all: True
      with spaces_tail_more [OF lr r] obtain b and w :: string and r'
        where "spaces_then_end (length (takeWhile is_space (rr @ r))) (rr @ r) = Some (b, r')"
          and "r = w @ r'" and "\<forall>c \<in> set w. is_space c" and "at_line_end r'"
        by auto
      with True Cons d t all spaces_tail_alone [OF lr] show ?thesis
        by (simp add: bracket_here_def carried_def)
    next
      case False
      with spaces_tail_more [OF lr r] spaces_tail_alone [OF lr] True Cons d show ?thesis
        by (simp add: bracket_here_def)
    qed
  qed
qed

lemma bracket_tail_extends:
  assumes "line_text s3" and "at_line_end r"
  shows "n \<le> length s3 \<Longrightarrow> carried r (bracket_tail n s3) (bracket_tail n (s3 @ r))"
proof (induction n)
  case 0
  with bracket_here_extends [OF assms, of 0] show ?case by simp
next
  case (Suc n)
  note h = bracket_here_extends [OF assms Suc.prems]
  show ?case
  proof (cases "bracket_here (Suc n) s3")
    case None
    with h have "bracket_here (Suc n) (s3 @ r) = None" by simp
    with None Suc show ?thesis by simp
  next
    case (Some a)
    obtain x b rest where a: "a = (x, b, rest)" by (cases a) auto
    with Some h have e: "carried r (Some (x, b, rest)) (bracket_here (Suc n) (s3 @ r))" by simp
    from carried_SomeD [OF this] obtain b' and w :: string and r' where
      "bracket_here (Suc n) (s3 @ r) = Some (x, b', r')" by auto
    with Some a e show ?thesis by simp
  qed
qed

lemma line_text_takeWhile: "line_text l \<Longrightarrow> takeWhile (\<lambda>c. \<not> is_line_terminator c) l = l"
  by (simp add: line_text_def)

lemma line_text_takeWhile_more:
  "line_text l \<Longrightarrow> at_line_end r \<Longrightarrow> takeWhile (\<lambda>c. \<not> is_line_terminator c) (l @ r) = l"
  by (cases r) (auto simp: line_text_def at_line_end_def)


lemma dropWhile_more:
  assumes "dropWhile P l \<noteq> []"
  shows "dropWhile P (l @ r) = dropWhile P l @ r" and "takeWhile P (l @ r) = takeWhile P l"
proof -
  from assms obtain x where "x \<in> set l" "\<not> P x"
    by (metis dropWhile_eq_Nil_conv)
  then show "dropWhile P (l @ r) = dropWhile P l @ r" and "takeWhile P (l @ r) = takeWhile P l"
    by simp_all
qed

lemma dropWhile_all_more:
  assumes "dropWhile P l = []" and "at_line_end r" and "\<And>c. is_line_terminator c \<Longrightarrow> \<not> P c"
  shows "takeWhile P (l @ r) = l" and "dropWhile P (l @ r) = r"
proof -
  from assms(1) have a: "\<forall>x \<in> set l. P x" by simp
  have "takeWhile P r = [] \<and> dropWhile P r = r"
    using assms(2,3) by (cases r) (auto simp: at_line_end_def)
  with a show "takeWhile P (l @ r) = l" and "dropWhile P (l @ r) = r"
    by simp_all
qed

lemma line_text_dropWhile: "line_text l \<Longrightarrow> line_text (dropWhile P l)"
  by (auto simp: line_text_def dest: set_dropWhileD)

lemma line_text_tl: "line_text (c # l) \<Longrightarrow> line_text l"
  by (simp add: line_text_def)

lemma step_prefix_start:
  "step_prefix s = Some x \<Longrightarrow> \<exists>t. s = CHR ''#'' # CHR ''E'' # t"
  by (auto simp: step_prefix_def split: list.splits if_splits)

lemma step_prefix_at_line_end: "at_line_end r \<Longrightarrow> step_prefix r = None"
proof (rule ccontr)
  assume r: "at_line_end r" and "step_prefix r \<noteq> None"
  then obtain x where "step_prefix r = Some x" by auto
  from step_prefix_start [OF this] r show False
    by (auto simp: at_line_end_def dest: lt_not_special)
qed

lemma step_prefix_extends:
  assumes l: "line_text l" and r: "at_line_end r" and nh: "\<not> step_head l"
  shows "step_prefix (l @ r) = map_option (\<lambda>(d, n, s3). (d, n, s3 @ r)) (step_prefix l)"
proof (cases l)
  case Nil
  with step_prefix_at_line_end [OF r] show ?thesis by (simp add: step_prefix_def)
next
  case (Cons h l1)
  show ?thesis
  proof (cases l1)
    case Nil
    with Cons r show ?thesis
      by (cases r) (auto simp: step_prefix_def at_line_end_def dest: lt_not_special)
  next
    case l1: (Cons e s1)
    let ?ds = "takeWhile is_digit s1" and ?a = "dropWhile is_digit s1"
    have ls1: "line_text s1" using l Cons l1 by (simp add: line_text_Cons)
    show ?thesis
    proof (cases "h = CHR ''#'' \<and> e = CHR ''E'' \<and> ?ds \<noteq> []")
      case False
      have "?ds = [] \<Longrightarrow> takeWhile is_digit (s1 @ r) = []"
        using r by (cases s1; cases r) (auto simp: at_line_end_def dest: lt_not_digit split: if_splits)
      with False Cons l1 show ?thesis by (auto simp: step_prefix_def)
    next
      case start: True
      let ?b = "dropWhile is_space ?a"
      from nh Cons l1 start have b: "?b \<noteq> []"
        by (auto simp: step_head_def simp del: dropWhile_eq_Nil_conv split: list.splits)
      have a: "?a \<noteq> []"
      proof
        assume "?a = []"
        then have "?b = []" by (simp only: dropWhile.simps)
        with b show False by contradiction
      qed
      then obtain eq s2 where eq: "?b = eq # s2" using b by (cases ?b) auto
      have d1: "takeWhile is_digit (s1 @ r) = ?ds" "dropWhile is_digit (s1 @ r) = ?a @ r"
        using dropWhile_more [OF a] by simp_all
      have d2: "dropWhile is_space (?a @ r) = eq # s2 @ r"
        using dropWhile_more(1) [OF b, of r] eq by simp
      have ls2: "line_text s2"
        using line_text_dropWhile [OF line_text_dropWhile [OF ls1], of is_space is_digit] eq
        by (simp add: line_text_Cons)
      show ?thesis
      proof (cases "eq = CHR ''=''")
        case False
        with Cons l1 start eq d1 d2 show ?thesis by (simp add: step_prefix_def)
      next
        case equals: True
        let ?c = "dropWhile is_space s2"
        from nh Cons l1 start eq equals have c: "?c \<noteq> []"
          by (auto simp: step_head_def simp del: dropWhile_eq_Nil_conv split: list.splits)
        have d3: "dropWhile is_space (s2 @ r) = ?c @ r"
          using dropWhile_more(1) [OF c] by simp
        let ?d = "dropWhile is_word_char ?c"
        show ?thesis
        proof (cases "?d = []")
          case True
          from dropWhile_all_more [OF True r lt_not_word]
          have w: "takeWhile is_word_char (?c @ r) = ?c" "dropWhile is_word_char (?c @ r) = r"
            by simp_all
          have "step_prefix (l @ r) = None"
            using Cons l1 start eq equals d1 d2 d3 w r
            by (cases r)
              (auto simp: step_prefix_def at_line_end_def simp del: dropWhile_eq_Nil_conv
                dest: lt_not_special)
          moreover have "step_prefix l = None"
            using Cons l1 start eq equals True
            by (simp add: step_prefix_def del: dropWhile_eq_Nil_conv)
          ultimately show ?thesis by simp
        next
          case False
          from dropWhile_more [OF False]
          have w: "takeWhile is_word_char (?c @ r) = takeWhile is_word_char ?c"
            "dropWhile is_word_char (?c @ r) = ?d @ r"
            by simp_all
          from False obtain br s3 where br: "?d = br # s3" by (cases ?d) auto
          from Cons l1 start eq equals d1 d2 d3 w br show ?thesis
            by (simp add: step_prefix_def)
        qed
      qed
    qed
  qed
qed

lemma step_prefix_line_text:
  assumes "line_text l" and "step_prefix l = Some (d, n, s3)"
  shows "line_text s3"
proof -
  from step_prefix_start [OF assms(2)] obtain s1 where s: "l = CHR ''#'' # CHR ''E'' # s1" by auto
  with assms(2) obtain eq s2 where s2: "dropWhile is_space (dropWhile is_digit s1) = eq # s2"
    by (auto simp: step_prefix_def split: list.splits if_splits)
  with s assms(2) obtain br where s3: "dropWhile is_word_char (dropWhile is_space s2) = br # s3"
    by (auto simp: step_prefix_def split: list.splits if_splits)
  from assms(1) s have "line_text s1" by (simp add: line_text_Cons)
  then have "line_text (eq # s2)"
    unfolding s2 [symmetric] by (intro line_text_dropWhile)
  then have "line_text s2" by (rule line_text_tl)
  then have "line_text (br # s3)"
    unfolding s3 [symmetric] by (intro line_text_dropWhile)
  then show ?thesis by (rule line_text_tl)
qed


lemma match_step_extends:
  assumes l: "line_text l" and r: "at_line_end r" and nh: "\<not> step_head l"
  shows "carried r (match_step l) (match_step (l @ r))"
proof (cases "step_prefix l")
  case None
  with step_prefix_extends [OF assms] show ?thesis by (simp add: match_step_def)
next
  case (Some p)
  obtain d n s3 where p: "p = (d, n, s3)" by (cases p) auto
  with Some have sp: "step_prefix l = Some (d, n, s3)" by simp
  from step_prefix_line_text [OF l sp] have l3: "line_text s3" .
  from step_prefix_extends [OF assms] sp
  have spr: "step_prefix (l @ r) = Some (d, n, s3 @ r)" by simp
  from bracket_tail_extends [OF l3 r, of "length s3"]
  have "carried r (bracket_tail (length s3) s3) (bracket_tail (length s3) (s3 @ r))" by simp
  from carried_map_option [OF this,
      of "\<lambda>arg. \<lparr>step_id = d, step_tool = n, step_argument = arg\<rparr>"]
  show ?thesis
    by (simp add: match_step_def sp spr line_text_takeWhile [OF l3]
        line_text_takeWhile_more [OF l3 r])
qed

lemma match_step_start: "match_step s = Some x \<Longrightarrow> \<exists>t. s = CHR ''#'' # CHR ''E'' # t"
  by (auto simp: match_step_def split: option.splits dest: step_prefix_start)

lemma match_step_other: "c \<noteq> CHR ''#'' \<Longrightarrow> match_step (c # s) = None"
  using match_step_start [of "c # s"] by (cases "match_step (c # s)") auto

lemma match_step_break: "is_line_terminator c \<Longrightarrow> match_step (c # s) = None"
  by (rule match_step_other) (simp add: lt_not_special)

lemma match_step_Nil: "match_step [] = None"
  by (simp add: match_step_def step_prefix_def)

lemma exec_from_inside_line: "line_text l \<Longrightarrow> exec_from False (l @ r) = exec_from False r"
  by (induction l) (simp_all add: line_text_Cons)

lemma exec_from_spaces:
  "\<forall>c \<in> set w. is_space c \<Longrightarrow> at_line_end x \<Longrightarrow> exec_from b (w @ x) = after_break x"
proof (induction w arbitrary: b)
  case Nil
  then show ?case
    by (cases x) (simp_all add: after_break_def at_line_end_def match_step_break)
next
  case (Cons c w)
  then have "match_step (c # w @ x) = None" by (simp add: match_step_other space_not_hash)
  with Cons show ?case by simp
qed

lemma plan_matches_cong:
  "exec_from b s = exec_from b' s' \<Longrightarrow> plan_matches b s = plan_matches b' s'"
  by (subst (1 2) plan_matches.simps) simp

lemma plan_matches_None: "exec_from b s = None \<Longrightarrow> plan_matches b s = []"
  by (subst plan_matches.simps) simp

lemma plan_matches_Some:
  "exec_from b s = Some (m, b', rest) \<Longrightarrow> plan_matches b s = m # plan_matches b' rest"
  by (subst plan_matches.simps) simp

lemma text_lines_line: "line_text l \<Longrightarrow> text_lines l = [l]"
  by (induction l) (simp_all add: line_text_Cons)

lemma text_lines_break:
  "line_text l \<Longrightarrow> is_line_terminator c \<Longrightarrow> text_lines (l @ c # s) = l # text_lines s"
  by (induction l) (simp_all add: line_text_Cons)

lemma text_split:
  obtains l where "line_text l" and "s = l"
  | l c s' where "line_text l" and "is_line_terminator c" and "s = l @ c # s'"
proof (cases "dropWhile (\<lambda>c. \<not> is_line_terminator c) s")
  case Nil
  then have "line_text s" by (simp add: line_text_def)
  then show ?thesis using that(1) by blast
next
  case (Cons c s')
  have "line_text (takeWhile (\<lambda>c. \<not> is_line_terminator c) s)"
    by (auto simp: line_text_def dest: set_takeWhileD)
  moreover have "is_line_terminator c"
    using Cons hd_dropWhile [of "\<lambda>c. \<not> is_line_terminator c" s] by auto
  moreover have "s = takeWhile (\<lambda>c. \<not> is_line_terminator c) s @ c # s'"
    using Cons takeWhile_dropWhile_id [of "\<lambda>c. \<not> is_line_terminator c" s] by simp
  ultimately show ?thesis using that(2) by blast
qed

lemma line_step_alone:
  assumes "line_text l" and "\<not> step_head l"
  shows "line_step l = map_option fst (match_step l)"
proof (cases "match_step l")
  case None
  then show ?thesis by (simp add: line_step_def)
next
  case (Some x)
  obtain m b rest where x: "x = (m, b, rest)" by (cases x) auto
  from match_step_extends [OF assms(1) _ assms(2), of "[]"] Some x
  have "rest = []" by (auto simp: at_line_end_def dest: carried_SomeD)
  with Some x show ?thesis by (simp add: line_step_def)
qed

lemma first_line_matches:
  assumes l: "line_text l" and c: "is_line_terminator c" and nh: "\<not> step_head l"
  shows "plan_matches True (l @ c # s)
     = (case line_step l of None \<Rightarrow> [] | Some m \<Rightarrow> [m]) @ plan_matches True s"
proof -
  have r: "at_line_end (c # s)" using c by (simp add: at_line_end_def)
  note e = match_step_extends [OF l r nh]
  show ?thesis
  proof (cases "match_step l")
    case None
    with e have n: "match_step (l @ c # s) = None" by simp
    have "exec_from True (l @ c # s) = exec_from True s"
    proof (cases l)
      case Nil
      with c show ?thesis by (simp add: match_step_break)
    next
      case (Cons x xs)
      with l have "\<not> is_line_terminator x" "line_text xs" by (simp_all add: line_text_Cons)
      with n Cons c exec_from_inside_line [of xs "c # s"] show ?thesis
        by (simp add: match_step_break)
    qed
    then have "plan_matches True (l @ c # s) = plan_matches True s" by (rule plan_matches_cong)
    with None line_step_alone [OF l nh] show ?thesis by simp
  next
    case (Some x)
    obtain m b rest where x: "x = (m, b, rest)" by (cases x) auto
    from e Some x obtain b' and w :: string and r' where
      m: "match_step (l @ c # s) = Some (m, b', r')" and w: "c # s = w @ r'"
      and sp: "\<forall>c \<in> set w. is_space c" and br: "at_line_end r'"
      by (auto dest: carried_SomeD)
    from match_step_start [OF Some] obtain t where "l = CHR ''#'' # CHR ''E'' # t" by auto
    with m have "exec_from True (l @ c # s) = Some (m, b', r')" by simp
    then have p: "plan_matches True (l @ c # s) = m # plan_matches b' r'"
      by (rule plan_matches_Some)
    have "exec_from b' r' = after_break r'"
      using exec_from_spaces [of "[]" r' b'] br by simp
    moreover have "exec_from True s = after_break r'"
    proof (cases w)
      case Nil
      with w have "r' = c # s" by simp
      then show ?thesis by (simp add: after_break_def)
    next
      case (Cons y w')
      with w sp have "s = w' @ r'" "\<forall>c \<in> set w'. is_space c" by simp_all
      with exec_from_spaces [OF _ br, of w' True] show ?thesis by simp
    qed
    ultimately have "plan_matches b' r' = plan_matches True s"
      by (intro plan_matches_cong) simp
    with p Some x line_step_alone [OF l nh] show ?thesis by simp
  qed
qed

lemma only_line_matches:
  assumes l: "line_text l" and nh: "\<not> step_head l"
  shows "plan_matches True l = (case line_step l of None \<Rightarrow> [] | Some m \<Rightarrow> [m])"
proof (cases "match_step l")
  case None
  have "exec_from True l = None"
  proof (cases l)
    case Nil
    then show ?thesis by simp
  next
    case (Cons x xs)
    with l have "\<not> is_line_terminator x" "line_text xs" by (simp_all add: line_text_Cons)
    with None Cons exec_from_inside_line [of xs "[]"] show ?thesis by simp
  qed
  with None line_step_alone [OF l nh] show ?thesis by (simp add: plan_matches_None)
next
  case (Some x)
  obtain m b rest where x: "x = (m, b, rest)" by (cases x) auto
  from match_step_start [OF Some] obtain t where "l = CHR ''#'' # CHR ''E'' # t" by auto
  with Some x have "exec_from True l = Some (m, b, rest)" by simp
  from plan_matches_Some [OF this] Some x line_step_alone [OF l nh]
  have "plan_matches True l = m # plan_matches b rest" and "line_step l = Some m"
    and "rest = []"
    using match_step_extends [OF l _ nh, of "[]"]
    by (auto simp: at_line_end_def dest: carried_SomeD)
  then show ?thesis by (simp add: plan_matches_None)
qed

lemma plan_matches_lines:
  "\<forall>l \<in> set (text_lines s). \<not> step_head l \<Longrightarrow> plan_matches True s = matching_lines s"
proof (induction s rule: length_induct)
  case (1 s)
  show ?case
  proof (cases s rule: text_split)
    case (1 l)
    with "1.prems" have "\<not> step_head l" by (simp add: text_lines_line)
    with 1 only_line_matches [of l] show ?thesis
      by (simp add: matching_lines_def text_lines_line split: option.splits)
  next
    case (2 l c s')
    with "1.prems" have nh: "\<not> step_head l" and rest: "\<forall>l \<in> set (text_lines s'). \<not> step_head l"
      by (simp_all add: text_lines_break)
    from 2 have "length s' < length s" by simp
    with "1.IH" rest have "plan_matches True s' = matching_lines s'" by blast
    with 2 nh first_line_matches [of l c s'] show ?thesis
      by (simp add: matching_lines_def text_lines_break split: option.splits)
  qed
qed

lemma word_not_space: "is_word_char c \<Longrightarrow> \<not> is_space c"
  unfolding is_word_char_def is_space_def by fastforce

lemma dropWhile_none: "(\<And>c. c \<in> set s \<Longrightarrow> \<not> P c) \<Longrightarrow> dropWhile P s = s"
  by (cases s) auto

lemma trim_word:
  assumes "\<forall>c \<in> set s. is_word_char c"
  shows "trim s = s"
proof -
  have n: "\<not> is_space c" if "c \<in> set s" for c
    using assms that by (simp add: word_not_space)
  have a: "dropWhile is_space s = s"
    using n by (rule dropWhile_none)
  have "dropWhile is_space (rev s) = rev s"
    using n by (intro dropWhile_none) simp
  with a show ?thesis by (simp add: trim_def)
qed

lemma step_prefix_tool:
  assumes "step_prefix s = Some (d, n, s3)"
  shows "\<forall>c \<in> set n. is_word_char c"
proof -
  from step_prefix_start [OF assms] obtain s1 where s: "s = CHR ''#'' # CHR ''E'' # s1" by auto
  with assms obtain eq s2 where s2: "dropWhile is_space (dropWhile is_digit s1) = eq # s2"
    by (auto simp: step_prefix_def split: list.splits if_splits)
  with s assms have "n = takeWhile is_word_char (dropWhile is_space s2)"
    by (auto simp: step_prefix_def split: list.splits if_splits)
  then show ?thesis by (auto dest: set_takeWhileD)
qed

lemma match_step_tool:
  assumes "match_step s = Some (m, b, rest)"
  shows "trim (step_tool m) = step_tool m"
proof -
  from assms obtain d n s3 where p: "step_prefix s = Some (d, n, s3)" and "step_tool m = n"
    by (auto simp: match_step_def split: option.splits)
  with step_prefix_tool [OF p] show ?thesis by (simp add: trim_word)
qed

lemma exec_from_tool:
  "exec_from b s = Some (m, b', rest) \<Longrightarrow> trim (step_tool m) = step_tool m"
proof (induction s arbitrary: b)
  case Nil
  then show ?case by simp
next
  case (Cons c cs)
  show ?case
  proof (cases "if b then match_step (c # cs) else None")
    case None
    with Cons.prems have "exec_from (is_line_terminator c) cs = Some (m, b', rest)" by simp
    then show ?thesis by (rule Cons.IH)
  next
    case (Some r)
    with Cons.prems have "match_step (c # cs) = Some (m, b', rest)" by (auto split: if_splits)
    then show ?thesis by (rule match_step_tool)
  qed
qed

lemma plan_matches_tool: "\<forall>m \<in> set (plan_matches b s). trim (step_tool m) = step_tool m"
proof (induction b s rule: plan_matches.induct)
  case (1 b s)
  show ?case
  proof (cases "exec_from b s")
    case None
    then show ?thesis by (simp add: plan_matches_None)
  next
    case (Some r)
    obtain m b' rest where r: "r = (m, b', rest)" by (cases r) auto
    with Some 1 exec_from_tool [of b s m b' rest] show ?thesis
      by (simp add: plan_matches_Some)
  qed
qed

subsection \<open>Steps and lines\<close>

lemma step_records_in_order:
  "list_all2 (\<lambda>m x. exec_id x = ''#E'' @ step_id m \<and> tool x = step_tool m)
     (plan_matches True plan) (step_executions e table (plan_matches True plan))"
proof -
  have "list_all2 (\<lambda>m x. exec_id x = ''#E'' @ step_id m \<and> tool x = step_tool m)
          ms (step_executions e table ms)"
    if "\<forall>m \<in> set ms. trim (step_tool m) = step_tool m" for ms
    using that by (induction ms arbitrary: table) (simp_all add: execute_step_fields)
  with plan_matches_tool [of True plan] show ?thesis by blast
qed

lemma demo_lines:
  "text_lines demo_plan
   = [''Plan: read the notes'', ''#E1 = ReadFile[notes.md]'', ''#E3 = SearchText[#E1 | #E9]'',
      ''#E2 = DeleteFile[tmp]'', ''#E4 = ReadFile[src]'', ''#E5 = ListFiles[#E2]'']"
  by code_simp

lemma broken_plan_matches:
  "plan_matches True (''#E1 ='' @ [LF] @ ''ListFiles[.]'')
   = [\<lparr>step_id = ''1'', step_tool = ''ListFiles'', step_argument = ''.''\<rparr>]"
  by code_simp

text \<open>
  Claim C2, as the claim states it, fails where a step is broken over lines: \<open>\s\<close>
  matches a line terminator too, so the pattern matches \<open>#E1 =\<close> followed, on the next
  line, by \<open>ListFiles[.]\<close>. The pass executes that step, and no line of this plan matches
  the pattern by itself.
\<close>

theorem plan_steps_counterexample:
  "map exec_id (executions (executePlanTools demo_env
       (demo_session\<lparr>planMarkdown := Some (''#E1 ='' @ [LF] @ ''ListFiles[.]'')\<rparr>)))
     = [''#E1'']
   \<and> matching_lines (''#E1 ='' @ [LF] @ ''ListFiles[.]'') = []"
proof -
  have "or_else (planMarkdown (demo_session\<lparr>planMarkdown := Some (''#E1 ='' @ [LF] @ ''ListFiles[.]'')\<rparr>)) []
      = ''#E1 ='' @ [LF] @ ''ListFiles[.]''"
    by (simp add: or_else_def truthy_def)
  then have "map exec_id (executions (executePlanTools demo_env
       (demo_session\<lparr>planMarkdown := Some (''#E1 ='' @ [LF] @ ''ListFiles[.]'')\<rparr>))) = [''#E1'']"
    by (simp only: executePlanTools_executions broken_plan_matches)
      (simp add: execute_step_fields)
  moreover have "matching_lines (''#E1 ='' @ [LF] @ ''ListFiles[.]'') = []"
    by code_simp
  ultimately show ?thesis by (intro conjI)
qed

text \<open>
  Claim C2, amended. The execution records of a pass correspond one to one, in order,
  with the matches of the step pattern in the plan text, in the order of the text and
  whatever the numbers of the steps are: each record has the identifier and the tool
  name of its match. When no line of the plan is the bare head of a step (\<open>#E\<close>, digits
  and white space, with or without the equals sign, and nothing after), these matches
  are exactly the lines of the plan that match the pattern, in the order of the text.
\<close>

theorem plan_steps_in_order:
  "list_all2 (\<lambda>m x. exec_id x = ''#E'' @ step_id m \<and> tool x = step_tool m)
     (plan_matches True (or_else (planMarkdown session) []))
     (executions (executePlanTools e session))
   \<and> ((\<forall>l \<in> set (text_lines (or_else (planMarkdown session) [])). \<not> step_head l) \<longrightarrow>
        plan_matches True (or_else (planMarkdown session) [])
          = matching_lines (or_else (planMarkdown session) []))"
  using step_records_in_order [of "or_else (planMarkdown session) []" e Map.empty]
    plan_matches_lines [of "or_else (planMarkdown session) []"]
  by (simp add: executePlanTools_executions)

theorem plan_steps_in_order_witness:
  "list_all (\<lambda>l. \<not> step_head l) (text_lines (or_else (planMarkdown demo_session) []))
   \<and> plan_matches True (or_else (planMarkdown demo_session) [])
       = matching_lines (or_else (planMarkdown demo_session) [])
   \<and> map step_id (plan_matches True (or_else (planMarkdown demo_session) []))
       = [''1'', ''3'', ''2'', ''4'', ''5'']
   \<and> map exec_id (executions (executePlanTools demo_env demo_session))
       = [''#E1'', ''#E3'', ''#E2'', ''#E4'', ''#E5'']"
proof -
  have p: "or_else (planMarkdown demo_session) [] = demo_plan"
    by (simp add: demo_session_def or_else_def truthy_def demo_plan_def)
  have h: "list_all (\<lambda>l. \<not> step_head l) (text_lines demo_plan)"
    unfolding demo_lines by (simp add: step_head_def is_digit_def is_space_def)
  then have "\<forall>l \<in> set (text_lines (or_else (planMarkdown demo_session) [])). \<not> step_head l"
    by (simp only: p list_all_iff)
  with plan_steps_in_order [of demo_session demo_env]
  have eq: "plan_matches True (or_else (planMarkdown demo_session) [])
       = matching_lines (or_else (planMarkdown demo_session) [])"
    by blast
  from h have h': "list_all (\<lambda>l. \<not> step_head l) (text_lines (or_else (planMarkdown demo_session) []))"
    by (simp only: p)
  have ids: "map step_id (plan_matches True (or_else (planMarkdown demo_session) []))
       = [''1'', ''3'', ''2'', ''4'', ''5'']"
    by (simp add: p demo_matches)
  have xs: "map exec_id (executions (executePlanTools demo_env demo_session))
       = [''#E1'', ''#E3'', ''#E2'', ''#E4'', ''#E5'']"
    by (simp add: demo_executions)
  from h' eq ids xs show ?thesis by (intro conjI)
qed

end
